theory Spec2Isabelle
  imports Main "HOL-Library.Word"
begin

unbundle bit_operations_syntax

section \<open>Cooperative scheduler (src/src/scalability.h)\<close>

text \<open>
  The scheduler keeps its state in file-scope statics. They are collected in one record
  that every operation takes and returns. Thread ids, queue indices and counts are
  never negative in the source, so they are natural numbers; the sentinel \<open>-1\<close> of
  \<open>pop_rq\<close>, \<open>create_thread\<close> and \<open>sc_current_thread\<close> is \<open>None\<close>. Load counters are
  C \<open>int\<close>s that are decremented, so they stay integers. A function pointer is its
  address, \<open>0\<close> being the null pointer.
\<close>

text \<open>A C \<open>int\<close> has 32 bits: \<open>int32 x\<close> is the value that the two's complement machine
  arithmetic leaves where the exact result would be \<open>x\<close>.\<close>

definition int32 :: "int \<Rightarrow> int" where
  "int32 x = (x + 2147483648) mod 4294967296 - 2147483648"

datatype thread_state_t = THREAD_READY | THREAD_RUNNING | THREAD_BLOCKED | THREAD_DONE

definition SC_MAX_THREADS :: nat where
  "SC_MAX_THREADS = 64"

definition SC_MAX_CPUS :: nat where
  "SC_MAX_CPUS = 8"

record sc_thread_t =
  thread_id :: nat
  cpu_id :: nat
  priority :: int
  quota :: "32 word"
  entry :: nat
  arg :: nat
  state :: thread_state_t
  ticks :: "64 word"

record sched =
  sc_threads :: "sc_thread_t list"
  sc_thread_count :: nat
  sc_run_queue :: "nat list"
  sc_rq_head :: nat
  sc_rq_tail :: nat
  sc_cpu_load :: "int list"
  sc_cpu_count :: nat
  sc_current_thread :: "nat option"

text \<open>\<open>init_scheduler\<close> resets the counters and indices; the thread table and the queue
  array keep whatever they held.\<close>

definition init_scheduler :: "int \<Rightarrow> sched \<Rightarrow> sched" where
  "init_scheduler cpus s =
     (let c1 = (if cpus < 1 then 1 else cpus);
          c2 = (if c1 > int SC_MAX_CPUS then int SC_MAX_CPUS else c1)
      in s\<lparr>sc_cpu_count := nat c2,
            sc_cpu_load := replicate SC_MAX_CPUS 0,
            sc_thread_count := 0,
            sc_rq_head := 0,
            sc_rq_tail := 0,
            sc_current_thread := None\<rparr>)"

definition get_thread_count :: "sched \<Rightarrow> nat" where
  "get_thread_count s =
     length (filter (\<lambda>t. state t \<noteq> THREAD_DONE) (take (sc_thread_count s) (sc_threads s)))"

definition get_cpu_load :: "int \<Rightarrow> sched \<Rightarrow> int" where
  "get_cpu_load c s =
     (if c < 0 \<or> c \<ge> int (sc_cpu_count s) then 0 else sc_cpu_load s ! nat c)"

definition current_thread_id :: "sched \<Rightarrow> nat option" where
  "current_thread_id s = sc_current_thread s"

text \<open>The run queue is a circular buffer that keeps one slot empty: \<open>push_rq\<close> returns
  \<open>-1\<close> (here \<open>False\<close>) when advancing the tail would reach the head.\<close>

definition push_rq :: "nat \<Rightarrow> sched \<Rightarrow> bool \<times> sched" where
  "push_rq i s =
     (let next = (sc_rq_tail s + 1) mod SC_MAX_THREADS
      in if next = sc_rq_head s then (False, s)
         else (True, s\<lparr>sc_run_queue := (sc_run_queue s)[sc_rq_tail s := i],
                        sc_rq_tail := next\<rparr>))"

definition pop_rq :: "sched \<Rightarrow> nat option \<times> sched" where
  "pop_rq s =
     (if sc_rq_head s = sc_rq_tail s then (None, s)
      else (Some (sc_run_queue s ! sc_rq_head s),
            s\<lparr>sc_rq_head := (sc_rq_head s + 1) mod SC_MAX_THREADS\<rparr>))"

text \<open>The loop \<open>for (i = 1; i < sc_cpu_count; i++) if (load[i] < load[best]) best = i\<close>.\<close>

definition least_loaded :: "int list \<Rightarrow> nat \<Rightarrow> nat" where
  "least_loaded load n =
     fold (\<lambda>i best. if load ! i < load ! best then i else best) [1..<n] 0"

definition most_loaded :: "int list \<Rightarrow> nat \<Rightarrow> nat" where
  "most_loaded load n =
     fold (\<lambda>i best. if load ! i > load ! best then i else best) [1..<n] 0"

text \<open>\<open>create_thread\<close> ignores the result of \<open>push_rq\<close>.\<close>

definition create_thread :: "nat \<Rightarrow> nat \<Rightarrow> int \<Rightarrow> sched \<Rightarrow> nat option \<times> sched" where
  "create_thread fn a prio s =
     (if fn = 0 then (None, s)
      else if sc_thread_count s \<ge> SC_MAX_THREADS then (None, s)
      else
        let best_cpu = least_loaded (sc_cpu_load s) (sc_cpu_count s);
            i = sc_thread_count s;
            t = \<lparr>thread_id = i, cpu_id = best_cpu, priority = prio, quota = 1,
                 entry = fn, arg = a, state = THREAD_READY, ticks = 0\<rparr>;
            s1 = s\<lparr>sc_threads := (sc_threads s)[i := t],
                   sc_thread_count := i + 1,
                   sc_cpu_load := (sc_cpu_load s)[best_cpu := sc_cpu_load s ! best_cpu + 1]\<rparr>
        in (Some i, snd (push_rq i s1)))"

definition yield :: "sched \<Rightarrow> sched" where
  "yield s =
     (case sc_current_thread s of
        None \<Rightarrow> s
      | Some i \<Rightarrow>
          (snd (push_rq i
             (s\<lparr>sc_threads := (sc_threads s)[i := (sc_threads s ! i)\<lparr>state := THREAD_READY\<rparr>]\<rparr>)))
          \<lparr>sc_current_thread := None\<rparr>)"

definition complete_current_thread :: "sched \<Rightarrow> sched" where
  "complete_current_thread s =
     (case sc_current_thread s of
        None \<Rightarrow> s
      | Some i \<Rightarrow>
          (let c = cpu_id (sc_threads s ! i)
           in s\<lparr>sc_threads := (sc_threads s)[i := (sc_threads s ! i)\<lparr>state := THREAD_DONE\<rparr>],
                 sc_cpu_load := (sc_cpu_load s)[c := sc_cpu_load s ! c - 1],
                 sc_current_thread := None\<rparr>))"

text \<open>\<open>load_balance\<close>: one pass finds the first least and the first most loaded CPU;
  when they differ by more than one, the first ready thread of the most loaded CPU
  moves, and the loop breaks. The difference of the two counters is computed in \<open>int\<close>
  and can leave its range (a large counter minus a negative one), so it is reduced by
  \<open>int32\<close>. The decrement and the increment behind the test cannot: they run with the
  larger counter above the smaller one.\<close>

definition load_balance :: "sched \<Rightarrow> sched" where
  "load_balance s =
     (let min_cpu = least_loaded (sc_cpu_load s) (sc_cpu_count s);
          max_cpu = most_loaded (sc_cpu_load s) (sc_cpu_count s)
      in if int32 (sc_cpu_load s ! max_cpu - sc_cpu_load s ! min_cpu) \<le> 1 then s
         else
           (case find (\<lambda>i. state (sc_threads s ! i) = THREAD_READY
                            \<and> cpu_id (sc_threads s ! i) = max_cpu)
                      [0..<sc_thread_count s] of
              None \<Rightarrow> s
            | Some i \<Rightarrow>
                s\<lparr>sc_threads := (sc_threads s)[i := (sc_threads s ! i)\<lparr>cpu_id := min_cpu\<rparr>],
                  sc_cpu_load := ((sc_cpu_load s)[max_cpu := sc_cpu_load s ! max_cpu - 1])
                                   [min_cpu := ((sc_cpu_load s)[max_cpu := sc_cpu_load s ! max_cpu - 1]) ! min_cpu + 1]\<rparr>))"

text \<open>
  A thread's entry function runs one slice and may call back into the scheduler. The
  code of the entry functions is a parameter: \<open>fns fn a\<close> is what the function at
  address \<open>fn\<close> does, called with argument \<open>a\<close>, to its own state \<open>'e\<close> and to the
  scheduler.
\<close>

definition schedule_process ::
  "(nat \<Rightarrow> nat \<Rightarrow> 'e \<times> sched \<Rightarrow> 'e \<times> sched) \<Rightarrow> 'e \<times> sched \<Rightarrow> 'e \<times> sched" where
  "schedule_process fns es =
     (case pop_rq (snd es) of
        (None, _) \<Rightarrow> es
      | (Some i, s1) \<Rightarrow>
          if state (sc_threads s1 ! i) \<noteq> THREAD_READY then (fst es, snd (push_rq i s1))
          else
            let s2 = s1\<lparr>sc_threads := (sc_threads s1)[i := (sc_threads s1 ! i)\<lparr>state := THREAD_RUNNING\<rparr>],
                        sc_current_thread := Some i\<rparr>;
                es3 = fns (entry (sc_threads s2 ! i)) (arg (sc_threads s2 ! i)) (fst es, s2);
                s3 = snd es3
            in if sc_current_thread s3 = Some i
               then (fst es3,
                     (snd (push_rq i
                        (s3\<lparr>sc_threads := (sc_threads s3)[i := (sc_threads s3 ! i)
                               \<lparr>ticks := ticks (sc_threads s3 ! i) + 1, state := THREAD_READY\<rparr>]\<rparr>)))
                     \<lparr>sc_current_thread := None\<rparr>)
               else es3)"

text \<open>The ids waiting in the run queue, oldest first.\<close>

definition rq_list :: "sched \<Rightarrow> nat list" where
  "rq_list s =
     map (\<lambda>k. sc_run_queue s ! ((sc_rq_head s + k) mod SC_MAX_THREADS))
         [0..<(sc_rq_tail s + SC_MAX_THREADS - sc_rq_head s) mod SC_MAX_THREADS]"

definition rq_wf :: "sched \<Rightarrow> bool" where
  "rq_wf s \<longleftrightarrow> sc_rq_head s < SC_MAX_THREADS \<and> sc_rq_tail s < SC_MAX_THREADS
               \<and> length (sc_run_queue s) = SC_MAX_THREADS"


text \<open>A driver: the operations a caller can issue, run in order.\<close>

datatype sc_op = OpCreate nat nat int | OpSchedule | OpBalance

fun sc_step ::
  "(nat \<Rightarrow> nat \<Rightarrow> 'e \<times> sched \<Rightarrow> 'e \<times> sched) \<Rightarrow> sc_op \<Rightarrow> 'e \<times> sched \<Rightarrow> 'e \<times> sched" where
  "sc_step fns (OpCreate fn a prio) es = (fst es, snd (create_thread fn a prio (snd es)))"
| "sc_step fns OpSchedule es = schedule_process fns es"
| "sc_step fns OpBalance es = (fst es, load_balance (snd es))"

definition sc_run ::
  "(nat \<Rightarrow> nat \<Rightarrow> 'e \<times> sched \<Rightarrow> 'e \<times> sched) \<Rightarrow> sc_op list \<Rightarrow> 'e \<times> sched \<Rightarrow> 'e \<times> sched" where
  "sc_run fns ops es = fold (sc_step fns) ops es"

text \<open>Entry functions that do nothing to the scheduler but what the interface offers a
  running thread: return, or call \<open>yield\<close> or \<open>complete_current_thread\<close> (a second call
  in the same slice finds \<open>sc_current_thread\<close> cleared and does nothing).\<close>

definition api_fns :: "(nat \<Rightarrow> nat \<Rightarrow> 'e \<times> sched \<Rightarrow> 'e \<times> sched) \<Rightarrow> bool" where
  "api_fns fns \<longleftrightarrow>
     (\<forall>fn a e s. snd (fns fn a (e, s)) = s \<or> snd (fns fn a (e, s)) = yield s
                \<or> snd (fns fn a (e, s)) = complete_current_thread s)"

text \<open>
  A thread body that needs \<open>m\<close> slices: it counts its slices in \<open>steps\<close> (its own state,
  one counter per thread id, as \<open>worker\<close> of tests/test_scalability.c does), calls
  \<open>complete_current_thread\<close> in slice \<open>m\<close> and just returns in the slices before, which
  \<open>schedule_process\<close> treats as an implicit yield.
\<close>

definition slice_worker :: "nat \<Rightarrow> nat \<Rightarrow> nat \<Rightarrow> nat list \<times> sched \<Rightarrow> nat list \<times> sched" where
  "slice_worker m fn a es =
     (case current_thread_id (snd es) of
        None \<Rightarrow> es
      | Some tid \<Rightarrow>
          (let steps = (fst es)[tid := fst es ! tid + 1]
           in if steps ! tid \<ge> m then (steps, complete_current_thread (snd es))
              else (steps, snd es)))"

text \<open>\<open>while (get_thread_count() > 0) schedule_process();\<close> The loop need not end, so it
  runs on fuel: \<open>None\<close> is a loop still running when the fuel is spent.\<close>

fun run_until_done ::
  "(nat \<Rightarrow> nat \<Rightarrow> 'e \<times> sched \<Rightarrow> 'e \<times> sched) \<Rightarrow> nat \<Rightarrow> 'e \<times> sched \<Rightarrow> ('e \<times> sched) option" where
  "run_until_done fns 0 es = (if get_thread_count (snd es) = 0 then Some es else None)"
| "run_until_done fns (Suc n) es =
     (if get_thread_count (snd es) = 0 then Some es
      else run_until_done fns n (schedule_process fns es))"

text \<open>The statics as the C start-up leaves them: zero everywhere, except
  \<open>sc_cpu_count = 1\<close> and \<open>sc_current_thread = -1\<close>.\<close>

definition sc_boot :: sched where
  "sc_boot =
     \<lparr>sc_threads = replicate SC_MAX_THREADS
        \<lparr>thread_id = 0, cpu_id = 0, priority = 0, quota = 0, entry = 0, arg = 0,
         state = THREAD_READY, ticks = 0\<rparr>,
      sc_thread_count = 0,
      sc_run_queue = replicate SC_MAX_THREADS 0,
      sc_rq_head = 0,
      sc_rq_tail = 0,
      sc_cpu_load = replicate SC_MAX_CPUS 0,
      sc_cpu_count = 1,
      sc_current_thread = None\<rparr>"

text \<open>\<open>n\<close> calls of \<open>create_thread(fn, NULL, 1)\<close>.\<close>

definition spawn :: "nat \<Rightarrow> nat \<Rightarrow> sched \<Rightarrow> sched" where
  "spawn n fn s = ((\<lambda>s. snd (create_thread fn 0 1 s)) ^^ n) s"

text \<open>The counters of the CPUs in use count threads: none is negative, and each is a value
  of \<open>int\<close>.\<close>

definition loads_in_range :: "sched \<Rightarrow> bool" where
  "loads_in_range s \<longleftrightarrow>
     (\<forall>c < sc_cpu_count s. 0 \<le> sc_cpu_load s ! c \<and> sc_cpu_load s ! c \<le> 2147483647)"

text \<open>What the interface keeps true between calls: the queue holds ids of threads, every
  thread is assigned to a CPU in use, no thread is current, and the counter of a CPU
  counts the threads assigned to it that are not done.\<close>

definition live_on :: "nat \<Rightarrow> sched \<Rightarrow> nat set" where
  "live_on c s =
     {i. i < sc_thread_count s \<and> state (sc_threads s ! i) \<noteq> THREAD_DONE
         \<and> cpu_id (sc_threads s ! i) = c}"

definition counting :: "sched \<Rightarrow> bool" where
  "counting s \<longleftrightarrow>
     rq_wf s \<and> length (sc_threads s) = SC_MAX_THREADS \<and> sc_thread_count s \<le> SC_MAX_THREADS
     \<and> 1 \<le> sc_cpu_count s \<and> sc_cpu_count s \<le> SC_MAX_CPUS
     \<and> length (sc_cpu_load s) = SC_MAX_CPUS
     \<and> (\<forall>i \<in> set (rq_list s). i < sc_thread_count s)
     \<and> (\<forall>i < sc_thread_count s. cpu_id (sc_threads s ! i) < sc_cpu_count s)
     \<and> (\<forall>c < sc_cpu_count s. sc_cpu_load s ! c = int (card (live_on c s)))"

definition counted :: "sched \<Rightarrow> bool" where
  "counted s \<longleftrightarrow> counting s \<and> sc_current_thread s = None"

text \<open>The gap between the largest and the smallest load counter of the CPUs in use.\<close>

definition load_gap :: "sched \<Rightarrow> int" where
  "load_gap s =
     Max (set (take (sc_cpu_count s) (sc_cpu_load s)))
     - Min (set (take (sc_cpu_count s) (sc_cpu_load s)))"

text \<open>The maximally skewed start: \<open>n\<close> ready threads, all of them assigned to CPU 0 of \<open>c\<close>
  CPUs, and the load counters saying so.\<close>

definition skewed :: "nat \<Rightarrow> nat \<Rightarrow> sched \<Rightarrow> bool" where
  "skewed n c s \<longleftrightarrow>
     1 \<le> c \<and> c \<le> SC_MAX_CPUS \<and> sc_cpu_count s = c \<and> length (sc_cpu_load s) = SC_MAX_CPUS
     \<and> n \<le> SC_MAX_THREADS \<and> sc_thread_count s = n \<and> length (sc_threads s) = SC_MAX_THREADS
     \<and> (\<forall>i<n. state (sc_threads s ! i) = THREAD_READY \<and> cpu_id (sc_threads s ! i) = 0)
     \<and> sc_cpu_load s ! 0 = int n \<and> (\<forall>k<c. 0 < k \<longrightarrow> sc_cpu_load s ! k = 0)"

definition skewed_state :: "nat \<Rightarrow> nat \<Rightarrow> sched" where
  "skewed_state n c =
     sc_boot\<lparr>sc_cpu_count := c, sc_thread_count := n,
             sc_cpu_load := (replicate SC_MAX_CPUS 0)[0 := int n]\<rparr>"

text \<open>What stays true while \<open>load_balance\<close> levels such a start: the threads are ready,
  the counter of CPU 0 counts the threads assigned to it, and no other CPU is more than
  one thread ahead of any CPU.\<close>

definition levelling :: "sched \<Rightarrow> bool" where
  "levelling s \<longleftrightarrow>
     1 \<le> sc_cpu_count s \<and> sc_cpu_count s \<le> length (sc_cpu_load s)
     \<and> sc_thread_count s \<le> length (sc_threads s)
     \<and> (\<forall>i < sc_thread_count s. state (sc_threads s ! i) = THREAD_READY)
     \<and> sc_cpu_load s ! 0 = int (card {j. j < sc_thread_count s \<and> cpu_id (sc_threads s ! j) = 0})
     \<and> loads_in_range s
     \<and> (\<forall>k < sc_cpu_count s. \<forall>k' < sc_cpu_count s. 0 < k \<longrightarrow> sc_cpu_load s ! k \<le> sc_cpu_load s ! k' + 1)"

text \<open>A state with a stale queue entry: thread 0 is done, and its id is queued.\<close>

definition stale_entry_state :: sched where
  "stale_entry_state =
     sc_boot\<lparr>sc_threads := (sc_threads sc_boot)[0 := (sc_threads sc_boot ! 0)\<lparr>state := THREAD_DONE\<rparr>],
             sc_thread_count := 1, sc_rq_tail := 1\<rparr>"

text \<open>Thread \<open>i\<close> exists, is ready and has never run, but is neither queued nor current.\<close>

definition parked :: "nat \<Rightarrow> sched \<Rightarrow> bool" where
  "parked i s \<longleftrightarrow>
     rq_wf s \<and> i < sc_thread_count s \<and> i \<notin> set (rq_list s) \<and> sc_current_thread s \<noteq> Some i
     \<and> state (sc_threads s ! i) = THREAD_READY \<and> ticks (sc_threads s ! i) = 0"

text \<open>The scheduler after \<open>n\<close> threads with entry \<open>fn\<close> were created and none has run.\<close>

definition spawned :: "nat \<Rightarrow> nat \<Rightarrow> sched \<Rightarrow> bool" where
  "spawned n fn s \<longleftrightarrow>
     rq_wf s \<and> rq_list s = [0..<n] \<and> sc_thread_count s = n
     \<and> length (sc_threads s) = SC_MAX_THREADS \<and> sc_current_thread s = None
     \<and> (\<forall>i<n. state (sc_threads s ! i) = THREAD_READY \<and> ticks (sc_threads s ! i) = 0
               \<and> entry (sc_threads s ! i) = fn)"

text \<open>63 threads created on 4 CPUs and none run yet: the table has one free slot, the run
  queue none.\<close>

definition full_queue_state :: sched where
  "full_queue_state = spawn 63 1 (init_scheduler 4 sc_boot)"

text \<open>
  The round-robin of \<open>t\<close> threads that each need \<open>m\<close> slices, seen between two calls of
  \<open>schedule_process\<close>: in round \<open>r\<close>, the threads below \<open>i\<close> have had \<open>r + 1\<close> slices and
  the others \<open>r\<close>. A thread that has had \<open>k\<close> slices has counted \<open>k\<close> steps, got a tick
  for each slice but its last one, and is done if \<open>k\<close> reached \<open>m\<close>.
\<close>

definition slices_run :: "nat \<Rightarrow> nat \<Rightarrow> nat \<Rightarrow> sc_thread_t \<Rightarrow> bool" where
  "slices_run m k st th \<longleftrightarrow>
     st = k \<and> ticks th = of_nat (min k (m - 1))
     \<and> state th = (if k \<ge> m then THREAD_DONE else THREAD_READY)"

definition round_state :: "nat \<Rightarrow> nat \<Rightarrow> nat \<Rightarrow> nat \<Rightarrow> nat list \<times> sched \<Rightarrow> bool" where
  "round_state t m r i es \<longleftrightarrow>
     rq_wf (snd es) \<and> length (sc_threads (snd es)) = SC_MAX_THREADS
     \<and> length (fst es) = SC_MAX_THREADS
     \<and> sc_thread_count (snd es) = t \<and> sc_current_thread (snd es) = None
     \<and> rq_list (snd es) = (if r + 1 < m then [i..<t] @ [0..<i] else [i..<t])
     \<and> (\<forall>j<t. slices_run m (if j < i then r + 1 else r) (fst es ! j) (sc_threads (snd es) ! j))"

section \<open>Page-frame allocator with region registry (src/src/memory_management.c)\<close>

text \<open>
  The kernel is a 32-bit one: pointers are cast to \<open>uint32_t\<close> and \<open>size_t\<close> has 32 bits,
  so addresses and sizes are \<open>32 word\<close> and the address arithmetic wraps. A \<open>user_t*\<close> is
  its address, \<open>0\<close> being \<open>NULL\<close>. Frame indices and the hint stay below \<open>4097\<close>, so they
  are natural numbers; the sentinel \<open>(uint32_t)-1\<close> of \<open>find_free_page\<close> is \<open>None\<close>.
\<close>

definition PAGE_SIZE :: nat where
  "PAGE_SIZE = 4096"

definition KERNEL_END :: nat where
  "KERNEL_END = 0x100000"

definition PHYS_MEMORY_END :: nat where
  "PHYS_MEMORY_END = 0x1000000"

definition BITMAP_SIZE :: nat where
  "BITMAP_SIZE = PHYS_MEMORY_END div PAGE_SIZE div 8"

definition MAX_MEMORY_REGIONS :: nat where
  "MAX_MEMORY_REGIONS = 1024"

definition MEM_PROT_NONE :: "32 word" where "MEM_PROT_NONE = 0"
definition MEM_PROT_READ :: "32 word" where "MEM_PROT_READ = 1"
definition MEM_PROT_WRITE :: "32 word" where "MEM_PROT_WRITE = 2"
definition MEM_PROT_EXECUTE :: "32 word" where "MEM_PROT_EXECUTE = 4"
definition MEM_PROT_ALL :: "32 word" where "MEM_PROT_ALL = 7"

record memory_region_t =
  base_address :: "32 word"
  region_size :: "32 word"
  protection :: "32 word"
  owner :: "32 word"
  is_allocated :: bool

text \<open>\<open>memory_regions\<close> holds the \<open>region_count\<close> live entries of the array, in order; the
  slots past \<open>region_count\<close> are never read.\<close>

record mm_state =
  page_bitmap :: "8 word list"
  next_free_page :: nat
  memory_regions :: "memory_region_t list"
  memory_protection_enabled :: bool

definition region_count :: "mm_state \<Rightarrow> nat" where
  "region_count s = length (memory_regions s)"

text \<open>The events handed to \<open>log_memory_security_event\<close>.\<close>

datatype mem_event =
    INVALID_ACCESS | ADDRESS_OVERFLOW | OUT_OF_BOUNDS | MISALIGNED_ACCESS
  | PERMISSION_DENIED | WRONG_OWNER | UNREGISTERED_REGION
  | NO_USER | INVALID_SIZE | OUT_OF_MEMORY | REGION_REGISTRATION_FAILED
  | NULL_POINTER_FREE | INVALID_FREE | NO_USER_FREE | INVALID_FRAME
  | MEMORY_ALLOCATED | MEMORY_FREED

text \<open>\<open>validate_memory_access\<close> returns \<open>true\<close> (\<open>Granted\<close>) or logs one event and returns
  \<open>false\<close> (\<open>Denied\<close> with that event).\<close>

datatype verdict = Granted | Denied mem_event

text \<open>The loop over the registry: the first region that contains the range decides.\<close>

fun check_regions ::
  "memory_region_t list \<Rightarrow> 32 word \<Rightarrow> 32 word \<Rightarrow> 32 word \<Rightarrow> 32 word \<Rightarrow> verdict" where
  "check_regions [] cur start_addr end_addr access_type = Denied UNREGISTERED_REGION"
| "check_regions (r # rs) cur start_addr end_addr access_type =
     (if start_addr \<ge> base_address r \<and> end_addr \<le> base_address r + region_size r
      then (if protection r AND access_type = 0 then Denied PERMISSION_DENIED
            else if owner r \<noteq> 0 \<and> owner r \<noteq> cur then Denied WRONG_OWNER
            else Granted)
      else check_regions rs cur start_addr end_addr access_type)"

definition validate_memory_access ::
  "mm_state \<Rightarrow> 32 word \<Rightarrow> 32 word \<Rightarrow> 32 word \<Rightarrow> 32 word \<Rightarrow> verdict" where
  "validate_memory_access s cur address sz access_type =
     (if \<not> memory_protection_enabled s then Granted
      else if address = 0 \<or> sz = 0 then Denied INVALID_ACCESS
      else if address + sz < address then Denied ADDRESS_OVERFLOW
      else if address < of_nat KERNEL_END \<or> address + sz > of_nat PHYS_MEMORY_END
           then Denied OUT_OF_BOUNDS
      else if address mod of_nat PAGE_SIZE \<noteq> 0 then Denied MISALIGNED_ACCESS
      else check_regions (memory_regions s) cur address (address + sz) access_type)"

text \<open>The tests of \<open>validate_memory_access\<close> by name: the test that selects a region in
  the loop, the region the loop stops at, and the checks made on the range before the
  loop.\<close>

definition region_covers :: "memory_region_t \<Rightarrow> 32 word \<Rightarrow> 32 word \<Rightarrow> bool" where
  "region_covers r start_addr end_addr \<longleftrightarrow>
     start_addr \<ge> base_address r \<and> end_addr \<le> base_address r + region_size r"

definition covering_region :: "mm_state \<Rightarrow> 32 word \<Rightarrow> 32 word \<Rightarrow> memory_region_t option" where
  "covering_region s address sz =
     find (\<lambda>r. region_covers r address (address + sz)) (memory_regions s)"

definition range_ok :: "32 word \<Rightarrow> 32 word \<Rightarrow> bool" where
  "range_ok address sz \<longleftrightarrow>
     address \<noteq> 0 \<and> sz \<noteq> 0 \<and> \<not> address + sz < address
     \<and> of_nat KERNEL_END \<le> address \<and> address + sz \<le> of_nat PHYS_MEMORY_END
     \<and> address mod of_nat PAGE_SIZE = 0"

definition register_memory_region ::
  "32 word \<Rightarrow> 32 word \<Rightarrow> 32 word \<Rightarrow> 32 word \<Rightarrow> memory_region_t list
     \<Rightarrow> bool \<times> memory_region_t list" where
  "register_memory_region address sz prot own regions =
     (if length regions \<ge> MAX_MEMORY_REGIONS then (False, regions)
      else (True, regions @ [\<lparr>base_address = address, region_size = sz, protection = prot,
                              owner = own, is_allocated = True\<rparr>]))"

text \<open>\<open>unregister_memory_region\<close> drops the first entry with that base address, shifting
  the later entries down by one.\<close>

fun unregister_memory_region ::
  "32 word \<Rightarrow> memory_region_t list \<Rightarrow> bool \<times> memory_region_t list" where
  "unregister_memory_region address [] = (False, [])"
| "unregister_memory_region address (r # rs) =
     (if base_address r = address then (True, rs)
      else (fst (unregister_memory_region address rs),
            r # snd (unregister_memory_region address rs)))"

text \<open>\<open>(void*)(frame * PAGE_SIZE)\<close>, a 32-bit product.\<close>

definition page_address :: "nat \<Rightarrow> 32 word" where
  "page_address frame = of_nat (frame * PAGE_SIZE)"

definition bitmap_set :: "8 word list \<Rightarrow> nat \<Rightarrow> 8 word list" where
  "bitmap_set bm b = bm[b div 8 := (bm ! (b div 8)) OR push_bit (b mod 8) 1]"

definition bitmap_clear :: "8 word list \<Rightarrow> nat \<Rightarrow> 8 word list" where
  "bitmap_clear bm b = bm[b div 8 := (bm ! (b div 8)) AND NOT (push_bit (b mod 8) 1)]"

definition bitmap_test :: "8 word list \<Rightarrow> nat \<Rightarrow> bool" where
  "bitmap_test bm b \<longleftrightarrow> (bm ! (b div 8)) AND push_bit (b mod 8) 1 \<noteq> 0"

text \<open>The scan of \<open>find_free_page\<close>: from \<open>i\<close> up to the last frame.\<close>

function find_free_from :: "8 word list \<Rightarrow> nat \<Rightarrow> nat option" where
  "find_free_from bm i =
     (if i < PHYS_MEMORY_END div PAGE_SIZE
      then (if \<not> bitmap_test bm i then Some i else find_free_from bm (i + 1))
      else None)"
  by pat_completeness auto
termination
  by (relation "measure (\<lambda>(bm, i). PHYS_MEMORY_END div PAGE_SIZE - i)") auto

declare find_free_from.simps [simp del]

definition find_free_page :: "mm_state \<Rightarrow> nat option \<times> mm_state" where
  "find_free_page s =
     (case find_free_from (page_bitmap s) (next_free_page s) of
        None \<Rightarrow> (None, s)
      | Some i \<Rightarrow> (Some i, s\<lparr>next_free_page := i + 1\<rparr>))"

definition kernel_pages :: nat where
  "kernel_pages = (KERNEL_END + PAGE_SIZE - 1) div PAGE_SIZE"

definition init_memory_management :: "mm_state \<Rightarrow> mm_state" where
  "init_memory_management s =
     \<lparr>page_bitmap = fold (\<lambda>p bm. bitmap_set bm p) [0..<kernel_pages] (replicate BITMAP_SIZE 0),
      next_free_page = kernel_pages,
      memory_regions = snd (register_memory_region 0 (of_nat KERNEL_END)
                              (MEM_PROT_READ OR MEM_PROT_WRITE OR MEM_PROT_EXECUTE) 0 []),
      memory_protection_enabled = True\<rparr>"

text \<open>\<open>allocate_memory\<close> returns the address, or \<open>NULL\<close> after logging the event given here
  on the left. \<open>cur\<close> is what \<open>security_get_current_user()\<close> returns.\<close>

definition allocate_memory :: "32 word \<Rightarrow> 32 word \<Rightarrow> mm_state \<Rightarrow> (mem_event + 32 word) \<times> mm_state" where
  "allocate_memory cur sz s =
     (if cur = 0 then (Inl NO_USER, s)
      else if sz \<noteq> of_nat PAGE_SIZE then (Inl INVALID_SIZE, s)
      else
        (case find_free_page s of
           (None, s1) \<Rightarrow> (Inl OUT_OF_MEMORY, s1)
         | (Some frame, s1) \<Rightarrow>
             (let s2 = s1\<lparr>page_bitmap := bitmap_set (page_bitmap s1) frame\<rparr>;
                  allocated_address = page_address frame
              in case register_memory_region allocated_address (of_nat PAGE_SIZE)
                        (MEM_PROT_READ OR MEM_PROT_WRITE) cur (memory_regions s2) of
                   (False, _) \<Rightarrow>
                     (Inl REGION_REGISTRATION_FAILED,
                      s2\<lparr>page_bitmap := bitmap_clear (page_bitmap s2) frame\<rparr>)
                 | (True, regions) \<Rightarrow>
                     (Inr allocated_address, s2\<lparr>memory_regions := regions\<rparr>))))"

text \<open>\<open>free_memory\<close> returns nothing; the model returns the last event it logs.\<close>

definition free_memory :: "32 word \<Rightarrow> 32 word \<Rightarrow> mm_state \<Rightarrow> mem_event \<times> mm_state" where
  "free_memory cur ptr s =
     (if ptr = 0 then (NULL_POINTER_FREE, s)
      else if validate_memory_access s cur ptr (of_nat PAGE_SIZE) MEM_PROT_WRITE \<noteq> Granted
           then (INVALID_FREE, s)
      else if cur = 0 then (NO_USER_FREE, s)
      else
        (let frame = unat ptr div PAGE_SIZE
         in if frame < PHYS_MEMORY_END div PAGE_SIZE
            then (MEMORY_FREED,
                  s\<lparr>page_bitmap := bitmap_clear (page_bitmap s) frame,
                    next_free_page := (if frame < next_free_page s then frame
                                       else next_free_page s),
                    memory_regions := snd (unregister_memory_region ptr (memory_regions s))\<rparr>)
            else (INVALID_FRAME, s)))"

text \<open>Callers of the allocator: each call names the current user.\<close>

datatype mm_op = Alloc "32 word" "32 word" | Free "32 word" "32 word"

fun mm_step :: "mm_op \<Rightarrow> mm_state \<Rightarrow> mm_state" where
  "mm_step (Alloc cur sz) s = snd (allocate_memory cur sz s)"
| "mm_step (Free cur ptr) s = snd (free_memory cur ptr s)"

definition mm_run :: "mm_op list \<Rightarrow> mm_state \<Rightarrow> mm_state" where
  "mm_run ops s = fold mm_step ops s"

text \<open>A frame is allocated when the kernel holds it since initialisation or a registered
  region starts at it.\<close>

definition frame_allocated :: "mm_state \<Rightarrow> nat \<Rightarrow> bool" where
  "frame_allocated s f \<longleftrightarrow>
     f < kernel_pages \<or> (\<exists>r \<in> set (memory_regions s). base_address r = page_address f)"

text \<open>The registry entries the allocator makes: one for the kernel at initialisation, one
  per allocated frame.\<close>

definition kernel_region :: memory_region_t where
  "kernel_region =
     \<lparr>base_address = 0, region_size = of_nat KERNEL_END,
      protection = MEM_PROT_READ OR MEM_PROT_WRITE OR MEM_PROT_EXECUTE,
      owner = 0, is_allocated = True\<rparr>"

definition page_region :: "nat \<Rightarrow> 32 word \<Rightarrow> memory_region_t" where
  "page_region f u =
     \<lparr>base_address = page_address f, region_size = of_nat PAGE_SIZE,
      protection = MEM_PROT_READ OR MEM_PROT_WRITE, owner = u, is_allocated = True\<rparr>"

text \<open>The statics before \<open>init_memory_management\<close> runs.\<close>

definition mm_boot :: mm_state where
  "mm_boot =
     \<lparr>page_bitmap = replicate BITMAP_SIZE 0, next_free_page = 0, memory_regions = [],
      memory_protection_enabled = False\<rparr>"

text \<open>The value \<open>allocate_memory\<close> returns: \<open>NULL\<close> when it fails.\<close>

definition ret_ptr :: "mem_event + 32 word \<Rightarrow> 32 word" where
  "ret_ptr r = (case r of Inl _ \<Rightarrow> 0 | Inr a \<Rightarrow> a)"

text \<open>
  What holds of the allocator between calls, once initialised: the registry starts with
  the kernel's region, followed by one read-write page region with an owner for each
  allocated frame above the kernel, no two with the same base; and a frame's bit is set
  exactly if the frame is allocated.
\<close>

definition is_page_region :: "memory_region_t \<Rightarrow> bool" where
  "is_page_region r \<longleftrightarrow>
     (let f = unat (base_address r) div PAGE_SIZE
      in kernel_pages \<le> f \<and> f < PHYS_MEMORY_END div PAGE_SIZE \<and> r = page_region f (owner r))
     \<and> owner r \<noteq> 0"

definition mm_inv :: "mm_state \<Rightarrow> bool" where
  "mm_inv s \<longleftrightarrow>
     length (page_bitmap s) = BITMAP_SIZE \<and> memory_protection_enabled s
     \<and> memory_regions s \<noteq> [] \<and> hd (memory_regions s) = kernel_region
     \<and> (\<forall>r \<in> set (tl (memory_regions s)). is_page_region r)
     \<and> distinct (map base_address (tl (memory_regions s)))
     \<and> (\<forall>f < PHYS_MEMORY_END div PAGE_SIZE.
           bitmap_test (page_bitmap s) f \<longleftrightarrow> frame_allocated s f)"

text \<open>
  The live allocations, kept beside the allocator and read off the calls alone: an address
  is live, for the user who was current, from the call of \<open>allocate_memory\<close> that returned
  it until that user passes it to \<open>free_memory\<close>. Neither the bitmap nor the registry is
  consulted.
\<close>

fun track :: "mm_op \<Rightarrow> mm_state \<times> (32 word \<rightharpoonup> 32 word) \<Rightarrow> mm_state \<times> (32 word \<rightharpoonup> 32 word)" where
  "track (Alloc cur sz) (s, live) =
     (snd (allocate_memory cur sz s),
      (case fst (allocate_memory cur sz s) of
         Inl _ \<Rightarrow> live
       | Inr a \<Rightarrow> live(a \<mapsto> cur)))"
| "track (Free cur ptr) (s, live) =
     (snd (free_memory cur ptr s),
      (if live ptr = Some cur then live(ptr := None) else live))"

definition mm_history :: "mm_op list \<Rightarrow> mm_state \<Rightarrow> mm_state \<times> (32 word \<rightharpoonup> 32 word)" where
  "mm_history ops s = fold track ops (s, Map.empty)"

text \<open>The registry and the live allocations agree: the regions after the kernel's are the
  live addresses with their users.\<close>

definition tracked :: "mm_state \<Rightarrow> (32 word \<rightharpoonup> 32 word) \<Rightarrow> bool" where
  "tracked s live \<longleftrightarrow>
     mm_inv s
     \<and> (\<forall>a u. live a = Some u
               \<longleftrightarrow> (\<exists>r \<in> set (tl (memory_regions s)). base_address r = a \<and> owner r = u))"

text \<open>After initialisation user 5 allocated one page: frame 256, readable and writable.\<close>

definition one_page_state :: mm_state where
  "one_page_state = mm_run [Alloc 5 (of_nat PAGE_SIZE)] (init_memory_management mm_boot)"

text \<open>The bitmap in which exactly the frames below \<open>n\<close> are marked.\<close>

definition low_frames_bitmap :: "nat \<Rightarrow> 8 word list" where
  "low_frames_bitmap n = fold (\<lambda>p bm. bitmap_set bm p) [0..<n] (replicate BITMAP_SIZE 0)"

text \<open>User 5 allocates after initialisation until the registry is full (1023 pages next
  to the kernel's region), and then 2817 times more, once for each frame that is left.\<close>

definition full_registry_state :: mm_state where
  "full_registry_state =
     mm_run (replicate 1023 (Alloc 5 (of_nat PAGE_SIZE))) (init_memory_management mm_boot)"

definition exhausted_hint_state :: mm_state where
  "exhausted_hint_state =
     mm_run (replicate 2817 (Alloc 5 (of_nat PAGE_SIZE))) full_registry_state"

section \<open>The second allocator (src/iso/src/memory_management_optimized.c)\<close>






section \<open>The run queue as a list\<close>

lemma circ_len:
  assumes "h < 64" "t < 64"
  shows "(t + 64 - h) mod 64 = (if h \<le> t then t - h else t + 64 - (h::nat))"
proof (cases "h \<le> t")
  case True
  then have "t + 64 - h = (t - h) + 64" by arith
  then have "(t + 64 - h) mod 64 = (t - h) mod 64" by (simp only: mod_add_self2)
  moreover have "t - h < 64" using assms by arith
  ultimately show ?thesis using True by simp
next
  case False
  then have "t + 64 - h < 64" using assms by arith
  with False show ?thesis by simp
qed

lemma circ_pos:
  assumes "h < 64" "k < 64"
  shows "(h + k) mod 64 = (if h + k < 64 then h + k else h + k - (64::nat))"
proof (cases "h + k < 64")
  case True
  then show ?thesis by simp
next
  case False
  then have "h + k = (h + k - 64) + 64" by arith
  then have "(h + k) mod 64 = (h + k - 64) mod 64" by (metis mod_add_self2)
  moreover have "h + k - 64 < 64" using assms by arith
  ultimately show ?thesis using False by simp
qed

lemma rq_slot:
  assumes "h < 64" "t < 64" "k < (t + 64 - h) mod 64"
  shows "(h + k) mod 64 \<noteq> (t::nat)"
proof -
  from assms(3) have k': "k < (if h \<le> t then t - h else t + 64 - h)"
    by (simp only: circ_len[OF assms(1,2)])
  have k: "k < 64" using assms(3) mod_less_divisor[of 64 "t + 64 - h"] by linarith
  show ?thesis unfolding circ_pos[OF assms(1) k]
    using k' assms(1,2) by (cases "h \<le> t"; cases "h + k < 64"; simp; arith)
qed
  
lemma rq_slot_last:
  assumes "h < 64" "t < 64"
  shows "(h + (t + 64 - h) mod 64) mod 64 = (t::nat)"
proof -
  have l: "(t + 64 - h) mod 64 < 64" by simp
  show ?thesis unfolding circ_pos[OF assms(1) l]
    unfolding circ_len[OF assms]
    using assms by (cases "h \<le> t"; simp; arith)
qed

lemma rq_len_push:
  assumes "h < 64" "t < 64" "(t + 1) mod 64 \<noteq> (h::nat)"
  shows "((t + 1) mod 64 + 64 - h) mod 64 = Suc ((t + 64 - h) mod 64)"
proof -
  have a: "(t + 1) mod 64 < 64" by simp
  have b: "(t + 1) mod 64 = (if t + 1 < 64 then t + 1 else 0)"
    using circ_pos[OF assms(2), of 1] assms(2) by (simp split: if_splits)
  show ?thesis using assms(3) unfolding circ_len[OF assms(1) a] circ_len[OF assms(1,2)] 
    unfolding b using assms(1,2) by (cases "h \<le> t"; cases "t + 1 < 64"; simp; arith)
qed

lemma rq_wf_bounds:
  "rq_wf s \<Longrightarrow> sc_rq_head s < 64 \<and> sc_rq_tail s < 64 \<and> length (sc_run_queue s) = 64"
  by (simp add: rq_wf_def SC_MAX_THREADS_def)

lemma rq_list_alt:
  "rq_list s = map (\<lambda>k. sc_run_queue s ! ((sc_rq_head s + k) mod 64))
                   [0..<(sc_rq_tail s + 64 - sc_rq_head s) mod 64]"
  by (simp add: rq_list_def SC_MAX_THREADS_def)

lemma push_rq_ok:
  assumes "(sc_rq_tail s + 1) mod 64 \<noteq> sc_rq_head s"
  shows "push_rq i s = (True, s\<lparr>sc_run_queue := (sc_run_queue s)[sc_rq_tail s := i],
                                  sc_rq_tail := (sc_rq_tail s + 1) mod 64\<rparr>)"
  using assms by (simp add: push_rq_def SC_MAX_THREADS_def Let_def)

lemma push_rq_full:
  assumes "(sc_rq_tail s + 1) mod 64 = sc_rq_head s"
  shows "push_rq i s = (False, s)"
  using assms by (simp add: push_rq_def SC_MAX_THREADS_def Let_def)

lemma circ_push:
  assumes h: "h < 64" and t: "t < 64" and l: "length q = 64" and nf: "Suc t mod 64 \<noteq> h"
  shows "map (\<lambda>k. q[t := i] ! ((h + k) mod 64)) [0..<(Suc t mod 64 + 64 - h) mod 64]
         = map (\<lambda>k. q ! ((h + k) mod 64)) [0..<(t + 64 - h) mod 64] @ [i::nat]"
proof -
  from nf have nf': "(t + 1) mod 64 \<noteq> h" by simp
  have len: "(Suc t mod 64 + 64 - h) mod 64 = Suc ((t + 64 - h) mod 64)"
    using rq_len_push[OF h t nf'] by simp
  have old: "q[t := i] ! ((h + k) mod 64) = q ! ((h + k) mod 64)"
    if "k < (t + 64 - h) mod 64" for k
    using rq_slot[OF h t that] by (simp only: nth_list_update_neq not_sym)
  have new: "q[t := i] ! ((h + (t + 64 - h) mod 64) mod 64) = i"
    unfolding rq_slot_last[OF h t] using t l by simp
  have "map (\<lambda>k. q[t := i] ! ((h + k) mod 64)) [0..<(t + 64 - h) mod 64]
        = map (\<lambda>k. q ! ((h + k) mod 64)) [0..<(t + 64 - h) mod 64]"
    by (rule map_cong[OF refl]) (simp add: old)
  then show ?thesis unfolding len by (simp add: new)
qed

lemma rq_list_push:
  assumes wf: "rq_wf s" and nf: "(sc_rq_tail s + 1) mod 64 \<noteq> sc_rq_head s"
  shows "rq_list (snd (push_rq i s)) = rq_list s @ [i]"
proof -
  from rq_wf_bounds[OF wf] have h: "sc_rq_head s < 64" and t: "sc_rq_tail s < 64"
    and l: "length (sc_run_queue s) = 64"
    by simp_all
  from nf have nf': "Suc (sc_rq_tail s) mod 64 \<noteq> sc_rq_head s" by simp
  show ?thesis
    using circ_push[OF h t l nf'] nf'
    by (simp add: push_rq_def rq_list_def SC_MAX_THREADS_def Let_def)
qed

lemma rq_wf_push: "rq_wf s \<Longrightarrow> rq_wf (snd (push_rq i s))"
  by (simp add: push_rq_def rq_wf_def SC_MAX_THREADS_def Let_def)

lemma rq_list_empty:
  assumes wf: "rq_wf s"
  shows "rq_list s = [] \<longleftrightarrow> sc_rq_head s = sc_rq_tail s"
proof -
  from rq_wf_bounds[OF wf] have h: "sc_rq_head s < 64" and t: "sc_rq_tail s < 64" by simp_all
  show ?thesis unfolding rq_list_alt using circ_len[OF h t] h t
    by (cases "sc_rq_head s \<le> sc_rq_tail s"; simp; arith)
qed

lemma rq_full_iff:
  assumes wf: "rq_wf s"
  shows "(sc_rq_tail s + 1) mod 64 = sc_rq_head s \<longleftrightarrow> length (rq_list s) = 63"
proof -
  from rq_wf_bounds[OF wf] have h: "sc_rq_head s < 64" and t: "sc_rq_tail s < 64" by simp_all
  have b: "(sc_rq_tail s + 1) mod 64 = (if sc_rq_tail s + 1 < 64 then sc_rq_tail s + 1 else 0)"
    using circ_pos[OF t, of 1] t by (simp split: if_splits)
  show ?thesis unfolding rq_list_alt length_map length_upt b circ_len[OF h t] using h t
    by (cases "sc_rq_head s \<le> sc_rq_tail s"; cases "sc_rq_tail s + 1 < 64"; simp; arith)
qed

lemma rq_len_le:
  assumes wf: "rq_wf s"
  shows "length (rq_list s) \<le> 63"
proof -
  have "(sc_rq_tail s + 64 - sc_rq_head s) mod 64 < 64" by simp
  then show ?thesis unfolding rq_list_alt length_map length_upt by arith
qed

lemma rq_len_pop:
  assumes "h < 64" "t < 64" "h \<noteq> (t::nat)"
  shows "(t + 64 - h) mod 64 = Suc ((t + 64 - (h + 1) mod 64) mod 64)"
proof -
  have a: "(h + 1) mod 64 < 64" by simp
  have b: "(h + 1) mod 64 = (if h + 1 < 64 then h + 1 else 0)"
    using circ_pos[OF assms(1), of 1] assms(1) by (simp split: if_splits)
  show ?thesis using assms(3) unfolding circ_len[OF a assms(2)] circ_len[OF assms(1,2)] 
    unfolding b using assms(1,2) by (cases "h \<le> t"; cases "h + 1 < 64"; simp; arith)
qed

lemma rq_pos_pop:
  assumes "h < (64::nat)"
  shows "((h + 1) mod 64 + k) mod 64 = (h + Suc k) mod 64"
  by (simp add: mod_add_left_eq)

lemma pop_rq_ok:
  assumes "sc_rq_head s \<noteq> sc_rq_tail s"
  shows "pop_rq s = (Some (sc_run_queue s ! sc_rq_head s),
                     s\<lparr>sc_rq_head := (sc_rq_head s + 1) mod 64\<rparr>)"
  using assms by (simp add: pop_rq_def SC_MAX_THREADS_def)

lemma circ_pop:
  assumes h: "h < 64" and t: "t < 64" and ne: "h \<noteq> t"
  shows "map (\<lambda>k. q ! ((h + k) mod 64)) [0..<(t + 64 - h) mod 64]
         = q ! h # map (\<lambda>k. (q::nat list) ! ((Suc h mod 64 + k) mod 64)) [0..<(t + 64 - Suc h mod 64) mod 64]"
proof -
  have len: "(t + 64 - h) mod 64 = Suc ((t + 64 - Suc h mod 64) mod 64)"
    using rq_len_pop[OF h t ne] by simp
  have pos: "(Suc h mod 64 + k) mod 64 = (h + Suc k) mod 64" for k
    using rq_pos_pop[OF h, of k] by simp
  have hm: "h mod 64 = h" using h by simp
  show ?thesis
    unfolding pos
    apply (subst len)
    apply (subst upt_rec)
    apply (simp only: zero_less_Suc if_True list.map add_0_right hm)
    apply (simp only: map_Suc_upt[symmetric] map_map o_def)
    done
qed

lemma rq_list_pop:
  assumes wf: "rq_wf s" and ne: "sc_rq_head s \<noteq> sc_rq_tail s"
  shows "rq_list s = sc_run_queue s ! sc_rq_head s # rq_list (snd (pop_rq s))"
proof -
  from rq_wf_bounds[OF wf] have h: "sc_rq_head s < 64" and t: "sc_rq_tail s < 64" by simp_all
  show ?thesis
    using circ_pop[OF h t ne, of "sc_run_queue s"] ne
    by (simp add: pop_rq_def rq_list_def SC_MAX_THREADS_def)
qed

lemma rq_wf_pop: "rq_wf s \<Longrightarrow> rq_wf (snd (pop_rq s))"
  by (simp add: pop_rq_def rq_wf_def SC_MAX_THREADS_def)

lemma rq_push_after_pop:
  assumes wf: "rq_wf s" and ne: "sc_rq_head s \<noteq> sc_rq_tail s"
  shows "(sc_rq_tail (snd (pop_rq s)) + 1) mod 64 \<noteq> sc_rq_head (snd (pop_rq s))"
proof -
  from rq_wf_bounds[OF wf] have h: "sc_rq_head s < 64" and t: "sc_rq_tail s < 64" by simp_all
  have a: "(sc_rq_tail s + 1) mod 64 = (if sc_rq_tail s + 1 < 64 then sc_rq_tail s + 1 else 0)"
    using circ_pos[OF t, of 1] t by (simp split: if_splits)
  have b: "(sc_rq_head s + 1) mod 64 = (if sc_rq_head s + 1 < 64 then sc_rq_head s + 1 else 0)"
    using circ_pos[OF h, of 1] h by (simp split: if_splits)
  have "(sc_rq_tail s + 1) mod 64 \<noteq> (sc_rq_head s + 1) mod 64"
    unfolding a b using h t ne by (simp split: if_splits)
  then show ?thesis using ne by (simp add: pop_rq_def SC_MAX_THREADS_def)
qed

lemma push_rq_fields [simp]:
  "sc_threads (snd (push_rq i s)) = sc_threads s"
  "sc_cpu_load (snd (push_rq i s)) = sc_cpu_load s"
  "sc_thread_count (snd (push_rq i s)) = sc_thread_count s"
  "sc_current_thread (snd (push_rq i s)) = sc_current_thread s"
  "sc_cpu_count (snd (push_rq i s)) = sc_cpu_count s"
  "sc_rq_head (snd (push_rq i s)) = sc_rq_head s"
  by (simp_all add: push_rq_def Let_def)

lemma pop_rq_fields [simp]:
  "sc_threads (snd (pop_rq s)) = sc_threads s"
  "sc_cpu_load (snd (pop_rq s)) = sc_cpu_load s"
  "sc_thread_count (snd (pop_rq s)) = sc_thread_count s"
  "sc_current_thread (snd (pop_rq s)) = sc_current_thread s"
  "sc_cpu_count (snd (pop_rq s)) = sc_cpu_count s"
  "sc_rq_tail (snd (pop_rq s)) = sc_rq_tail s"
  "sc_run_queue (snd (pop_rq s)) = sc_run_queue s"
  by (simp_all add: pop_rq_def)

lemma rq_list_upd [simp]:
  "rq_list (s\<lparr>sc_threads := th\<rparr>) = rq_list s"
  "rq_list (s\<lparr>sc_cpu_load := ld\<rparr>) = rq_list s"
  "rq_list (s\<lparr>sc_thread_count := n\<rparr>) = rq_list s"
  "rq_list (s\<lparr>sc_current_thread := c\<rparr>) = rq_list s"
  by (simp_all add: rq_list_def)

lemma rq_wf_upd [simp]:
  "rq_wf (s\<lparr>sc_threads := th\<rparr>) = rq_wf s"
  "rq_wf (s\<lparr>sc_cpu_load := ld\<rparr>) = rq_wf s"
  "rq_wf (s\<lparr>sc_thread_count := n\<rparr>) = rq_wf s"
  "rq_wf (s\<lparr>sc_current_thread := c\<rparr>) = rq_wf s"
  by (simp_all add: rq_wf_def)

lemma rq_list_push_full:
  assumes "(sc_rq_tail s + 1) mod 64 = sc_rq_head s"
  shows "snd (push_rq i s) = s"
  using assms by (simp add: push_rq_full)

lemma rq_list_push_cases:
  assumes wf: "rq_wf s"
  shows "(length (rq_list s) = 63 \<and> snd (push_rq i s) = s)
       \<or> (length (rq_list s) < 63 \<and> rq_list (snd (push_rq i s)) = rq_list s @ [i])"
proof (cases "(sc_rq_tail s + 1) mod 64 = sc_rq_head s")
  case True
  then show ?thesis using rq_full_iff[OF wf] by (simp add: push_rq_full)
next
  case False
  then have "length (rq_list s) \<noteq> 63" using rq_full_iff[OF wf] by simp
  with rq_len_le[OF wf] have "length (rq_list s) < 63" by arith
  with rq_list_push[OF wf False] show ?thesis by simp
qed

lemma rq_list_push_subset:
  assumes wf: "rq_wf s"
  shows "set (rq_list (snd (push_rq i s))) \<subseteq> insert i (set (rq_list s))"
  using rq_list_push_cases[OF wf, of i] by auto

lemma pop_rq_cases:
  assumes wf: "rq_wf s"
  shows "(rq_list s = [] \<and> pop_rq s = (None, s))
       \<or> (\<exists>j. rq_list s = j # rq_list (snd (pop_rq s)) \<and> fst (pop_rq s) = Some j
              \<and> length (rq_list (snd (pop_rq s))) < 63)"
proof (cases "sc_rq_head s = sc_rq_tail s")
  case True
  then show ?thesis using rq_list_empty[OF wf] by (simp add: pop_rq_def)
next
  case False
  have l: "rq_list s = sc_run_queue s ! sc_rq_head s # rq_list (snd (pop_rq s))"
    by (rule rq_list_pop[OF wf False])
  have "length (rq_list s) \<le> 63" by (rule rq_len_le[OF wf])
  with l have "length (rq_list (snd (pop_rq s))) < 63" by simp
  moreover have "fst (pop_rq s) = Some (sc_run_queue s ! sc_rq_head s)"
    using False by (simp add: pop_rq_def)
  ultimately show ?thesis using l by simp
qed

section \<open>Stale run-queue entries\<close>

text \<open>
  C5 (as the code has it). When \<open>schedule_process\<close> pops an id whose thread is not ready,
  it pushes the id back: the id moves from the front of the run queue to its tail, the
  entry function is not called, and the thread table, the load counters, the thread
  count and the current thread stay as they were.
\<close>

theorem C5_stale_requeued:
  assumes wf: "rq_wf s"
    and pop: "fst (pop_rq s) = Some i"
    and stale: "state (sc_threads s ! i) \<noteq> THREAD_READY"
  shows "fst (schedule_process fns (e, s)) = e
       \<and> rq_list s = i # tl (rq_list s)
       \<and> rq_list (snd (schedule_process fns (e, s))) = tl (rq_list s) @ [i]
       \<and> sc_threads (snd (schedule_process fns (e, s))) = sc_threads s
       \<and> sc_cpu_load (snd (schedule_process fns (e, s))) = sc_cpu_load s
       \<and> sc_thread_count (snd (schedule_process fns (e, s))) = sc_thread_count s
       \<and> sc_current_thread (snd (schedule_process fns (e, s))) = sc_current_thread s"
proof -
  from pop have ne: "sc_rq_head s \<noteq> sc_rq_tail s"
    by (auto simp: pop_rq_def split: if_splits)
  with pop have i: "sc_run_queue s ! sc_rq_head s = i"
    by (simp add: pop_rq_def)
  define s1 where "s1 = snd (pop_rq s)"
  have p: "pop_rq s = (Some i, s1)"
    using pop by (simp add: s1_def prod_eq_iff)
  have th1: "sc_threads s1 = sc_threads s" "sc_cpu_load s1 = sc_cpu_load s"
    "sc_thread_count s1 = sc_thread_count s" "sc_current_thread s1 = sc_current_thread s"
    using ne by (simp_all add: s1_def pop_rq_def)
  have l: "rq_list s = i # rq_list s1"
    using rq_list_pop[OF wf ne] i by (simp add: s1_def)
  have wf1: "rq_wf s1" unfolding s1_def by (rule rq_wf_pop[OF wf])
  have nf: "(sc_rq_tail s1 + 1) mod 64 \<noteq> sc_rq_head s1"
    unfolding s1_def by (rule rq_push_after_pop[OF wf ne])
  have sp: "schedule_process fns (e, s) = (e, snd (push_rq i s1))"
    using p stale th1 by (simp add: schedule_process_def)
  have l2: "rq_list (snd (push_rq i s1)) = rq_list s1 @ [i]"
    by (rule rq_list_push[OF wf1 nf])
  have th2: "sc_threads (snd (push_rq i s1)) = sc_threads s1"
    "sc_cpu_load (snd (push_rq i s1)) = sc_cpu_load s1"
    "sc_thread_count (snd (push_rq i s1)) = sc_thread_count s1"
    "sc_current_thread (snd (push_rq i s1)) = sc_current_thread s1"
    by (simp_all add: push_rq_def Let_def)
  show ?thesis unfolding sp using l l2 th1 th2 by simp
qed

lemma stale_entry_state_facts: "rq_wf stale_entry_state" "fst (pop_rq stale_entry_state) = Some 0" "state (sc_threads stale_entry_state ! 0) \<noteq> THREAD_READY"
  "rq_list stale_entry_state = [0]"
  by (simp_all add: stale_entry_state_def sc_boot_def rq_wf_def pop_rq_def SC_MAX_THREADS_def rq_list_def)

text \<open>The claim's "discarded without being re-enqueued" fails: the stale id 0 is still
  queued after the call.\<close>

theorem C5_counterexample:
  "fst (pop_rq stale_entry_state) = Some 0 \<and> state (sc_threads stale_entry_state ! 0) \<noteq> THREAD_READY
   \<and> rq_list (snd (schedule_process (\<lambda>fn a es. es) ((), stale_entry_state))) = [0]"
  by (simp add: stale_entry_state_def sc_boot_def pop_rq_def SC_MAX_THREADS_def rq_list_def schedule_process_def push_rq_def Let_def)

theorem C5_witness:
  "rq_wf stale_entry_state \<and> fst (pop_rq stale_entry_state) = Some 0 \<and> state (sc_threads stale_entry_state ! 0) \<noteq> THREAD_READY
   \<and> rq_list (snd (schedule_process (\<lambda>fn a es. es) ((), stale_entry_state))) = [] @ [0]
   \<and> sc_threads (snd (schedule_process (\<lambda>fn a es. es) ((), stale_entry_state))) = sc_threads stale_entry_state"
  using C5_stale_requeued[OF stale_entry_state_facts(1,2,3), of "\<lambda>fn a es. es" "()"] stale_entry_state_facts by simp

section \<open>Threads that are created but never queued\<close>

lemma parked_push:
  assumes "parked i s" "j \<noteq> i"
  shows "parked i (snd (push_rq j s))"
proof -
  from assms(1) have wf: "rq_wf s" by (simp add: parked_def)
  from rq_list_push_subset[OF wf, of j] assms rq_wf_push[OF wf, of j]
  show ?thesis by (auto simp: parked_def)
qed

lemma parked_threads_upd:
  assumes "parked i s" "j \<noteq> i"
  shows "parked i (s\<lparr>sc_threads := (sc_threads s)[j := t]\<rparr>)"
  using assms by (simp add: parked_def)

lemma parked_load_upd:
  "parked i (s\<lparr>sc_cpu_load := ld\<rparr>) = parked i s"
  by (simp add: parked_def)

lemma parked_current_upd:
  assumes "parked i s" "c \<noteq> Some i"
  shows "parked i (s\<lparr>sc_current_thread := c\<rparr>)"
  using assms by (simp add: parked_def)

lemma parked_count_upd:
  assumes "parked i s" "sc_thread_count s \<le> n"
  shows "parked i (s\<lparr>sc_thread_count := n\<rparr>)"
  using assms by (simp add: parked_def)

lemma parked_create:
  assumes "parked i s"
  shows "parked i (snd (create_thread fn a prio s))"
proof (cases "fn = 0 \<or> sc_thread_count s \<ge> SC_MAX_THREADS")
  case True
  then show ?thesis using assms by (auto simp: create_thread_def)
next
  case False
  from assms have ne: "sc_thread_count s \<noteq> i" by (simp add: parked_def)
  let ?s1 = "s\<lparr>sc_threads := (sc_threads s)[sc_thread_count s :=
                  \<lparr>thread_id = sc_thread_count s, cpu_id = least_loaded (sc_cpu_load s) (sc_cpu_count s),
                   priority = prio, quota = 1, entry = fn, arg = a, state = THREAD_READY, ticks = 0\<rparr>],
                sc_thread_count := sc_thread_count s + 1,
                sc_cpu_load := (sc_cpu_load s)[least_loaded (sc_cpu_load s) (sc_cpu_count s) :=
                   sc_cpu_load s ! least_loaded (sc_cpu_load s) (sc_cpu_count s) + 1]\<rparr>"
  have "parked i ?s1" using assms ne by (simp add: parked_def)
  then have "parked i (snd (push_rq (sc_thread_count s) ?s1))"
    using ne by (rule parked_push)
  then show ?thesis using False by (simp add: create_thread_def Let_def)
qed

lemma nth_cpu_upd_state:
  "state (xs[j := (xs ! j)\<lparr>cpu_id := c\<rparr>] ! k) = state (xs ! k)"
  by (cases "j < length xs"; cases "k = j"; simp add: list_update_beyond)

lemma nth_cpu_upd_ticks:
  "ticks (xs[j := (xs ! j)\<lparr>cpu_id := c\<rparr>] ! k) = ticks (xs ! k)"
  by (cases "j < length xs"; cases "k = j"; simp add: list_update_beyond)

lemma parked_balance:
  assumes "parked i s"
  shows "parked i (load_balance s)"
proof -
  have "parked i (s\<lparr>sc_threads := (sc_threads s)[j := (sc_threads s ! j)\<lparr>cpu_id := c\<rparr>],
                    sc_cpu_load := ld\<rparr>)" for j c ld
    using assms by (simp add: parked_def nth_cpu_upd_state nth_cpu_upd_ticks)
  then show ?thesis using assms
    by (simp add: load_balance_def Let_def split: option.splits)
qed

lemma parked_yield:
  assumes "parked i s"
  shows "parked i (yield s)"
proof (cases "sc_current_thread s")
  case None
  then show ?thesis using assms by (simp add: yield_def)
next
  case (Some j)
  with assms have ne: "j \<noteq> i" by (auto simp: parked_def)
  have "parked i (s\<lparr>sc_threads := (sc_threads s)[j := (sc_threads s ! j)\<lparr>state := THREAD_READY\<rparr>]\<rparr>)"
    using assms ne by (rule parked_threads_upd)
  then have "parked i (snd (push_rq j
       (s\<lparr>sc_threads := (sc_threads s)[j := (sc_threads s ! j)\<lparr>state := THREAD_READY\<rparr>]\<rparr>)))"
    using ne by (rule parked_push)
  then show ?thesis using Some by (simp add: yield_def parked_current_upd)
qed

lemma parked_complete:
  assumes "parked i s"
  shows "parked i (complete_current_thread s)"
proof (cases "sc_current_thread s")
  case None
  then show ?thesis using assms by (simp add: complete_current_thread_def)
next
  case (Some j)
  with assms have ne: "j \<noteq> i" by (auto simp: parked_def)
  then show ?thesis using assms Some
    by (simp add: complete_current_thread_def Let_def parked_def)
qed

lemma parked_schedule:
  assumes p: "parked i s" and api: "api_fns fns"
  shows "parked i (snd (schedule_process fns (e, s)))"
proof -
  from p have wf: "rq_wf s" by (simp add: parked_def)
  from pop_rq_cases[OF wf] show ?thesis
  proof
    assume "rq_list s = [] \<and> pop_rq s = (None, s)"
    then show ?thesis using p by (simp add: schedule_process_def)
  next
    assume "\<exists>j. rq_list s = j # rq_list (snd (pop_rq s)) \<and> fst (pop_rq s) = Some j
              \<and> length (rq_list (snd (pop_rq s))) < 63"
    then obtain j where l: "rq_list s = j # rq_list (snd (pop_rq s))"
      and f: "fst (pop_rq s) = Some j" by blast
    define s1 where "s1 = snd (pop_rq s)"
    have pop: "pop_rq s = (Some j, s1)" using f by (simp add: s1_def prod_eq_iff)
    from p l have ne: "j \<noteq> i" by (auto simp: parked_def)
    have p1: "parked i s1"
      using p l rq_wf_pop[OF wf] by (auto simp: parked_def s1_def)
    show ?thesis
    proof (cases "state (sc_threads s1 ! j) \<noteq> THREAD_READY")
      case True
      then show ?thesis using pop parked_push[OF p1 ne]
        by (simp add: schedule_process_def)
    next
      case False
      define s2 where "s2 = s1\<lparr>sc_threads := (sc_threads s1)[j := (sc_threads s1 ! j)\<lparr>state := THREAD_RUNNING\<rparr>],
                        sc_current_thread := Some j\<rparr>"
      have p2: "parked i s2"
        unfolding s2_def using p1 ne by (simp add: parked_def)
      define es3 where "es3 = fns (entry (sc_threads s2 ! j)) (arg (sc_threads s2 ! j)) (e, s2)"
      from api have "snd es3 = s2 \<or> snd es3 = yield s2 \<or> snd es3 = complete_current_thread s2"
        unfolding es3_def api_fns_def by blast
      then have p3: "parked i (snd es3)"
        using p2 parked_yield[OF p2] parked_complete[OF p2] by auto
      have "parked i ((snd (push_rq j
                        ((snd es3)\<lparr>sc_threads := (sc_threads (snd es3))[j := (sc_threads (snd es3) ! j)
                               \<lparr>ticks := ticks (sc_threads (snd es3) ! j) + 1, state := THREAD_READY\<rparr>]\<rparr>)))
                     \<lparr>sc_current_thread := None\<rparr>)"
        by (rule parked_current_upd[OF parked_push[OF parked_threads_upd[OF p3 ne] ne]]) simp
      then show ?thesis using pop False p3
        by (simp add: schedule_process_def Let_def s2_def[symmetric] es3_def[symmetric])
    qed
  qed
qed

lemma parked_step:
  assumes "parked i (snd es)" "api_fns fns"
  shows "parked i (snd (sc_step fns op es))"
  using assms parked_schedule[of i "snd es" fns "fst es"]
  by (cases op) (simp_all add: parked_create parked_balance)

lemma parked_run:
  assumes "api_fns fns"
  shows "parked i (snd es) \<Longrightarrow> parked i (snd (sc_run fns ops es))"
  unfolding sc_run_def
proof (induction ops arbitrary: es)
  case Nil
  then show ?case by simp
next
  case (Cons op ops)
  from parked_step[OF Cons.prems assms] Cons.IH show ?case by simp
qed

lemma spawn_Suc: "spawn (Suc n) fn s = snd (create_thread fn 0 1 (spawn n fn s))"
  by (simp add: spawn_def)

lemma spawned_init:
  assumes "length (sc_threads s0) = 64" "length (sc_run_queue s0) = 64"
  shows "spawned 0 fn (init_scheduler c s0)"
  using assms
  by (simp add: spawned_def init_scheduler_def Let_def rq_wf_def rq_list_def SC_MAX_THREADS_def)

lemma create_thread_ok:
  assumes "fn \<noteq> 0" "sc_thread_count s < 64"
  shows "create_thread fn a prio s =
    (Some (sc_thread_count s),
     snd (push_rq (sc_thread_count s)
       (s\<lparr>sc_threads := (sc_threads s)[sc_thread_count s :=
                  \<lparr>thread_id = sc_thread_count s, cpu_id = least_loaded (sc_cpu_load s) (sc_cpu_count s),
                   priority = prio, quota = 1, entry = fn, arg = a, state = THREAD_READY, ticks = 0\<rparr>],
                sc_thread_count := sc_thread_count s + 1,
                sc_cpu_load := (sc_cpu_load s)[least_loaded (sc_cpu_load s) (sc_cpu_count s) :=
                   sc_cpu_load s ! least_loaded (sc_cpu_load s) (sc_cpu_count s) + 1]\<rparr>)))"
  using assms by (simp add: create_thread_def Let_def SC_MAX_THREADS_def)

lemma spawned_create:
  assumes sp: "spawned n fn s" and n: "n < 63" and fn: "fn \<noteq> 0"
  shows "spawned (Suc n) fn (snd (create_thread fn 0 1 s))"
proof -
  from sp have wf: "rq_wf s" and l: "rq_list s = [0..<n]" and c: "sc_thread_count s = n"
    and len: "length (sc_threads s) = 64" and cur: "sc_current_thread s = None"
    and th: "\<And>i. i < n \<Longrightarrow> state (sc_threads s ! i) = THREAD_READY \<and> ticks (sc_threads s ! i) = 0
               \<and> entry (sc_threads s ! i) = fn"
    by (simp_all add: spawned_def SC_MAX_THREADS_def)
  let ?s1 = "s\<lparr>sc_threads := (sc_threads s)[n :=
                  \<lparr>thread_id = n, cpu_id = least_loaded (sc_cpu_load s) (sc_cpu_count s),
                   priority = 1, quota = 1, entry = fn, arg = 0, state = THREAD_READY, ticks = 0\<rparr>],
                sc_thread_count := n + 1,
                sc_cpu_load := (sc_cpu_load s)[least_loaded (sc_cpu_load s) (sc_cpu_count s) :=
                   sc_cpu_load s ! least_loaded (sc_cpu_load s) (sc_cpu_count s) + 1]\<rparr>"
  have wf1: "rq_wf ?s1" using wf by simp
  have l1: "rq_list ?s1 = [0..<n]" using l by simp
  from rq_list_push_cases[OF wf1, of n] l1 n
  have l2: "rq_list (snd (push_rq n ?s1)) = [0..<Suc n]" by auto
  have cr: "snd (create_thread fn 0 1 s) = snd (push_rq n ?s1)"
    using create_thread_ok[OF fn, of s 0 1] c n by simp
  have th2: "state (sc_threads ?s1 ! i) = THREAD_READY \<and> ticks (sc_threads ?s1 ! i) = 0
               \<and> entry (sc_threads ?s1 ! i) = fn" if "i < Suc n" for i
    using that th[of i] len n by (cases "i = n") simp_all
  show ?thesis unfolding cr spawned_def
    using rq_wf_push[OF wf1, of n] l2 len cur th2 by (simp add: SC_MAX_THREADS_def)
qed

lemma spawned_spawn:
  assumes "length (sc_threads s0) = 64" "length (sc_run_queue s0) = 64" "fn \<noteq> 0"
  shows "n \<le> 63 \<Longrightarrow> spawned n fn (spawn n fn (init_scheduler c s0))"
proof (induction n)
  case 0
  then show ?case using spawned_init[OF assms(1,2)] by (simp add: spawn_def)
next
  case (Suc n)
  then have "spawned n fn (spawn n fn (init_scheduler c s0))" and "n < 63" by simp_all
  then show ?case unfolding spawn_Suc using assms(3) by (rule spawned_create)
qed

lemma sc_boot_lengths: "length (sc_threads sc_boot) = 64" "length (sc_run_queue sc_boot) = 64"
  by (simp_all add: sc_boot_def SC_MAX_THREADS_def)

section \<open>Creating a thread while the run queue is full\<close>

text \<open>
  C10. When the thread table has room but the run queue already holds its 63 entries,
  \<open>create_thread\<close> still returns the fresh id, marks the thread ready and increments the
  load counter of the CPU it chose; the failed push is ignored, so the queue is exactly
  as before. The new id is then in no queue slot, and whatever is called afterwards
  (\<open>create_thread\<close>, \<open>load_balance\<close>, \<open>schedule_process\<close> with entry functions that return,
  yield or complete) it never gets queued, never becomes the current thread, stays ready
  and keeps zero ticks: it is never dispatched. The queue of a scheduler that was only
  driven through its interface holds ids of existing threads, which is what the two
  hypotheses on the fresh id say.
\<close>

theorem C10_full_queue_create:
  assumes wf: "rq_wf s" and len: "length (sc_threads s) = SC_MAX_THREADS"
    and room: "sc_thread_count s < SC_MAX_THREADS"
    and full: "length (rq_list s) = SC_MAX_THREADS - 1"
    and fn: "fn \<noteq> 0"
    and fresh: "sc_thread_count s \<notin> set (rq_list s)"
    and cur: "sc_current_thread s \<noteq> Some (sc_thread_count s)"
    and api: "api_fns fns"
  shows "fst (create_thread fn a prio s) = Some (sc_thread_count s)
       \<and> state (sc_threads (snd (create_thread fn a prio s)) ! sc_thread_count s) = THREAD_READY
       \<and> cpu_id (sc_threads (snd (create_thread fn a prio s)) ! sc_thread_count s)
           = least_loaded (sc_cpu_load s) (sc_cpu_count s)
       \<and> sc_cpu_load (snd (create_thread fn a prio s))
           = (sc_cpu_load s)[least_loaded (sc_cpu_load s) (sc_cpu_count s) :=
                sc_cpu_load s ! least_loaded (sc_cpu_load s) (sc_cpu_count s) + 1]
       \<and> sc_thread_count (snd (create_thread fn a prio s)) = sc_thread_count s + 1
       \<and> sc_run_queue (snd (create_thread fn a prio s)) = sc_run_queue s
       \<and> sc_rq_head (snd (create_thread fn a prio s)) = sc_rq_head s
       \<and> sc_rq_tail (snd (create_thread fn a prio s)) = sc_rq_tail s
       \<and> rq_list (snd (create_thread fn a prio s)) = rq_list s
       \<and> (\<forall>ops e. sc_thread_count s \<notin> set (rq_list (snd (sc_run fns ops (e, snd (create_thread fn a prio s)))))
             \<and> sc_current_thread (snd (sc_run fns ops (e, snd (create_thread fn a prio s)))) \<noteq> Some (sc_thread_count s)
             \<and> state (sc_threads (snd (sc_run fns ops (e, snd (create_thread fn a prio s)))) ! sc_thread_count s) = THREAD_READY
             \<and> ticks (sc_threads (snd (sc_run fns ops (e, snd (create_thread fn a prio s)))) ! sc_thread_count s) = 0)"
proof -
  let ?n = "sc_thread_count s"
  let ?s1 = "s\<lparr>sc_threads := (sc_threads s)[?n :=
                  \<lparr>thread_id = ?n, cpu_id = least_loaded (sc_cpu_load s) (sc_cpu_count s),
                   priority = prio, quota = 1, entry = fn, arg = a, state = THREAD_READY, ticks = 0\<rparr>],
                sc_thread_count := ?n + 1,
                sc_cpu_load := (sc_cpu_load s)[least_loaded (sc_cpu_load s) (sc_cpu_count s) :=
                   sc_cpu_load s ! least_loaded (sc_cpu_load s) (sc_cpu_count s) + 1]\<rparr>"
  from room have room': "?n < 64" by (simp add: SC_MAX_THREADS_def)
  have cr: "create_thread fn a prio s = (Some ?n, snd (push_rq ?n ?s1))"
    by (rule create_thread_ok[OF fn room'])
  have wf1: "rq_wf ?s1" using wf by simp
  have "length (rq_list ?s1) = 63" using full by (simp add: SC_MAX_THREADS_def)
  with rq_list_push_cases[OF wf1, of ?n] have same: "snd (push_rq ?n ?s1) = ?s1" by auto
  have s': "snd (create_thread fn a prio s) = ?s1" using cr same by simp
  have pk: "parked ?n ?s1"
    using wf fresh cur len room' by (simp add: parked_def SC_MAX_THREADS_def)
  have "parked ?n (snd (sc_run fns ops (e, ?s1)))" for ops e
    using parked_run[OF api, of ?n "(e, ?s1)" ops] pk by simp
  then have never: "\<forall>ops e. ?n \<notin> set (rq_list (snd (sc_run fns ops (e, ?s1))))
             \<and> sc_current_thread (snd (sc_run fns ops (e, ?s1))) \<noteq> Some ?n
             \<and> state (sc_threads (snd (sc_run fns ops (e, ?s1))) ! ?n) = THREAD_READY
             \<and> ticks (sc_threads (snd (sc_run fns ops (e, ?s1))) ! ?n) = 0"
    by (simp add: parked_def)
  have first: "fst (create_thread fn a prio s) = Some ?n" using cr by simp
  show ?thesis unfolding s' using first never len room' by (simp add: SC_MAX_THREADS_def)
qed

theorem C10_witness:
  "rq_wf full_queue_state \<and> length (sc_threads full_queue_state) = SC_MAX_THREADS
   \<and> sc_thread_count full_queue_state < SC_MAX_THREADS
   \<and> length (rq_list full_queue_state) = SC_MAX_THREADS - 1
   \<and> sc_thread_count full_queue_state \<notin> set (rq_list full_queue_state)
   \<and> sc_current_thread full_queue_state \<noteq> Some (sc_thread_count full_queue_state)
   \<and> api_fns (\<lambda>fn a (es :: unit \<times> sched). es)
   \<and> fst (create_thread 1 0 1 full_queue_state) = Some 63
   \<and> rq_list (snd (create_thread 1 0 1 full_queue_state)) = [0..<63]
   \<and> state (sc_threads (snd (sc_run (\<lambda>fn a es. es) [OpSchedule, OpBalance, OpSchedule]
                ((), snd (create_thread 1 0 1 full_queue_state)))) ! 63) = THREAD_READY
   \<and> ticks (sc_threads (snd (sc_run (\<lambda>fn a es. es) [OpSchedule, OpBalance, OpSchedule]
                ((), snd (create_thread 1 0 1 full_queue_state)))) ! 63) = 0"
proof -
  have sp: "spawned 63 1 full_queue_state"
    unfolding full_queue_state_def
    by (rule spawned_spawn[OF sc_boot_lengths]) simp_all
  then have h: "rq_wf full_queue_state" "length (sc_threads full_queue_state) = SC_MAX_THREADS"
    "sc_thread_count full_queue_state < SC_MAX_THREADS"
    "length (rq_list full_queue_state) = SC_MAX_THREADS - 1"
    "sc_thread_count full_queue_state \<notin> set (rq_list full_queue_state)"
    "sc_current_thread full_queue_state \<noteq> Some (sc_thread_count full_queue_state)"
    and c: "sc_thread_count full_queue_state = 63" "rq_list full_queue_state = [0..<63]"
    by (simp_all add: spawned_def SC_MAX_THREADS_def)
  have api: "api_fns (\<lambda>fn a (es :: unit \<times> sched). es)"
    by (simp add: api_fns_def)
  have n0: "(1::nat) \<noteq> 0" by simp
  from C10_full_queue_create[OF h(1,2,3,4) n0 h(5,6) api, of 0 1] h api c
  show ?thesis by simp
qed

section \<open>Round-robin of equal threads\<close>

lemma round_step:
  assumes rs: "round_state t m r i es" and i: "i < t" and r: "r < m" and t: "t \<le> 63"
  shows "round_state t m r (Suc i) (schedule_process (slice_worker m) es)
         \<and> get_thread_count (snd es) \<noteq> 0"
proof -
  obtain steps s where es: "es = (steps, s)" by (cases es)
  from rs have wf: "rq_wf s" and len: "length (sc_threads s) = 64" and lst: "length steps = 64"
    and cnt: "sc_thread_count s = t" and cur: "sc_current_thread s = None"
    and q: "rq_list s = (if r + 1 < m then [i..<t] @ [0..<i] else [i..<t])"
    and th: "\<And>j. j < t \<Longrightarrow> slices_run m (if j < i then r + 1 else r) (steps ! j) (sc_threads s ! j)"
    by (simp_all add: round_state_def es SC_MAX_THREADS_def)
  have ui: "[i..<t] = i # [Suc i..<t]" using i by (simp add: upt_rec)
  define rest where "rest = (if r + 1 < m then [Suc i..<t] @ [0..<i] else [Suc i..<t])"
  have q': "rq_list s = i # rest" using q ui by (simp add: rest_def)
  define s1 where "s1 = snd (pop_rq s)"
  from pop_rq_cases[OF wf] q' have pop: "pop_rq s = (Some i, s1)" and q1: "rq_list s1 = rest"
    by (auto simp: s1_def prod_eq_iff)
  have wf1: "rq_wf s1" unfolding s1_def by (rule rq_wf_pop[OF wf])
  have s1f: "sc_threads s1 = sc_threads s" "sc_thread_count s1 = t" "sc_current_thread s1 = None"
    by (simp_all add: s1_def cnt cur)
  have mr: "min r (m - 1) = r" using r by arith
  from th[OF i] r have thi: "steps ! i = r" "ticks (sc_threads s ! i) = of_nat r"
    "state (sc_threads s ! i) = THREAD_READY"
    by (simp_all add: slices_run_def mr)
  have i64: "i < 64" using i t by simp
  have alive: "get_thread_count s \<noteq> 0"
  proof -
    have "sc_threads s ! i \<in> set (filter (\<lambda>t. state t \<noteq> THREAD_DONE) (take (sc_thread_count s) (sc_threads s)))"
      using thi(3) i cnt len i64 by (auto simp: in_set_conv_nth intro!: exI[of _ i])
    then show ?thesis unfolding get_thread_count_def by (metis length_0_conv empty_iff list.set(1))
  qed
  define s2 where "s2 = s1\<lparr>sc_threads := (sc_threads s1)[i := (sc_threads s1 ! i)\<lparr>state := THREAD_RUNNING\<rparr>],
                        sc_current_thread := Some i\<rparr>"
  define steps' where "steps' = steps[i := steps ! i + 1]"
  have st': "steps' ! i = r + 1" "length steps' = 64" "\<And>j. j \<noteq> i \<Longrightarrow> steps' ! j = steps ! j"
    using thi(1) lst i64 by (simp_all add: steps'_def)
  show ?thesis
  proof (cases "r + 1 < m")
    case True
    then have w: "slice_worker m (entry (sc_threads s2 ! i)) (arg (sc_threads s2 ! i)) (steps, s2) = (steps', s2)"
      using st'(1) by (simp add: slice_worker_def current_thread_id_def s2_def Let_def steps'_def)
    define s4 where "s4 = s2\<lparr>sc_threads := (sc_threads s2)[i := (sc_threads s2 ! i)
                               \<lparr>ticks := ticks (sc_threads s2 ! i) + 1, state := THREAD_READY\<rparr>]\<rparr>"
    have sp: "schedule_process (slice_worker m) es = (steps', (snd (push_rq i s4))\<lparr>sc_current_thread := None\<rparr>)"
      using pop thi(3) s1f w
      by (simp add: es schedule_process_def Let_def s2_def s4_def)
    have wf4: "rq_wf s4" using wf1 by (simp add: s4_def s2_def)
    have q4: "rq_list s4 = rest" using q1 by (simp add: s4_def s2_def)
    have "length rest < 63" using t i True by (simp add: rest_def)
    with rq_list_push_cases[OF wf4, of i] q4
    have q5: "rq_list (snd (push_rq i s4)) = rest @ [i]" by auto
    have q6: "rest @ [i] = [Suc i..<t] @ [0..<Suc i]" using True by (simp add: rest_def)
    have th4: "sc_threads s4 ! j = (if j = i then (sc_threads s ! i)\<lparr>ticks := of_nat r + 1, state := THREAD_READY\<rparr>
                                   else sc_threads s ! j)" for j
      using len i64 thi(2) by (simp add: s4_def s2_def s1f nth_list_update)
    have "slices_run m (if j < Suc i then r + 1 else r) (steps' ! j) (sc_threads s4 ! j)" if "j < t" for j
    proof (cases "j = i")
      case True
      moreover have "min (Suc r) (m - 1) = Suc r" using \<open>r + 1 < m\<close> by arith
      ultimately show ?thesis using st'(1) \<open>r + 1 < m\<close> by (simp add: th4 slices_run_def)
    next
      case False
      then have "(j < Suc i) = (j < i)" by auto
      then show ?thesis using th[OF that] False st'(3) by (simp add: th4)
    qed
    then show ?thesis unfolding sp round_state_def using alive True q5 q6 rq_wf_push[OF wf4, of i] st'(2) len
      by (simp add: es SC_MAX_THREADS_def) (simp add: s4_def s2_def s1f len)
  next
    case False
    with r have rm: "r + 1 = m" by simp
    define s3 where "s3 = complete_current_thread s2"
    have w: "slice_worker m (entry (sc_threads s2 ! i)) (arg (sc_threads s2 ! i)) (steps, s2) = (steps', s3)"
      using st'(1) rm by (simp add: slice_worker_def current_thread_id_def s2_def Let_def steps'_def s3_def)
    have s3c: "sc_current_thread s3 = None" by (simp add: s3_def complete_current_thread_def s2_def Let_def)
    have sp: "schedule_process (slice_worker m) es = (steps', s3)"
      using pop thi(3) s1f w s3c
      by (simp add: es schedule_process_def Let_def s2_def)
    have wf3: "rq_wf s3" using wf1 by (simp add: s3_def complete_current_thread_def s2_def Let_def)
    have q3: "rq_list s3 = rest" using q1 by (simp add: s3_def complete_current_thread_def s2_def Let_def)
    have th3: "sc_threads s3 ! j = (if j = i then (sc_threads s ! i)\<lparr>state := THREAD_DONE\<rparr>
                                   else sc_threads s ! j)" for j
      using len i64 by (simp add: s3_def complete_current_thread_def s2_def Let_def s1f nth_list_update)
    have "slices_run m (if j < Suc i then r + 1 else r) (steps' ! j) (sc_threads s3 ! j)" if "j < t" for j
    proof (cases "j = i")
      case True
      moreover have "min (Suc r) (m - 1) = r" using rm by arith
      ultimately show ?thesis using st'(1) rm thi(2) by (simp add: th3 slices_run_def)
    next
      case False
      then have "(j < Suc i) = (j < i)" by auto
      then show ?thesis using th[OF that] False st'(3) by (simp add: th3)
    qed
    moreover have "length (sc_threads s3) = 64" "sc_thread_count s3 = t"
      using len cnt by (simp_all add: s3_def complete_current_thread_def s2_def Let_def s1f)
    ultimately show ?thesis unfolding sp round_state_def using alive False q3 wf3 st'(2) s3c
      by (simp add: es SC_MAX_THREADS_def rest_def)
  qed
qed

lemma round_run:
  assumes t: "t \<le> 63" and r: "r < m"
  shows "round_state t m r i es \<Longrightarrow> i + d = t \<Longrightarrow>
         \<exists>es'. round_state t m r t es'
              \<and> (\<forall>n. run_until_done (slice_worker m) (d + n) es = run_until_done (slice_worker m) n es')"
proof (induction d arbitrary: i es)
  case 0
  then show ?case by (intro exI[of _ es]) simp
next
  case (Suc d)
  then have i: "i < t" by simp
  from round_step[OF Suc.prems(1) i r t]
  have rs1: "round_state t m r (Suc i) (schedule_process (slice_worker m) es)"
    and alive: "get_thread_count (snd es) \<noteq> 0" by simp_all
  from Suc.prems(2) have "Suc i + d = t" by simp
  from Suc.IH[OF rs1 this] obtain es' where e: "round_state t m r t es'"
    "\<And>n. run_until_done (slice_worker m) (d + n) (schedule_process (slice_worker m) es)
          = run_until_done (slice_worker m) n es'" by blast
  have "run_until_done (slice_worker m) (Suc d + n) es = run_until_done (slice_worker m) n es'" for n
    using alive e(2)[of n] by simp
  with e(1) show ?case by blast
qed

lemma round_wrap:
  assumes "round_state t m r t es" "r + 1 < m"
  shows "round_state t m (Suc r) 0 es"
  using assms by (simp add: round_state_def)

lemma rounds_run:
  assumes t: "t \<le> 63"
  shows "round_state t m r 0 es \<Longrightarrow> r + Suc k = m \<Longrightarrow>
         \<exists>es'. round_state t m (m - 1) t es'
              \<and> (\<forall>n. run_until_done (slice_worker m) (Suc k * t + n) es = run_until_done (slice_worker m) n es')"
proof (induction k arbitrary: r es)
  case 0
  then have r: "r < m" and rm: "r = m - 1" by simp_all
  from round_run[OF t r "0.prems"(1), of t] rm show ?case by simp
next
  case (Suc k)
  then have r: "r < m" and r1: "r + 1 < m" by simp_all
  from round_run[OF t r Suc.prems(1), of t] obtain es1 where e1: "round_state t m r t es1"
    "\<And>n. run_until_done (slice_worker m) (t + n) es = run_until_done (slice_worker m) n es1"
    by auto
  have w: "round_state t m (Suc r) 0 es1" by (rule round_wrap[OF e1(1) r1])
  from Suc.prems(2) have "Suc r + Suc k = m" by simp
  from Suc.IH[OF w this] obtain es' where e: "round_state t m (m - 1) t es'"
    "\<And>n. run_until_done (slice_worker m) (Suc k * t + n) es1 = run_until_done (slice_worker m) n es'"
    by blast
  have "run_until_done (slice_worker m) (Suc (Suc k) * t + n) es = run_until_done (slice_worker m) n es'" for n
  proof -
    have eq: "Suc (Suc k) * t + n = t + (Suc k * t + n)" by simp
    show ?thesis unfolding eq e1(2) e(2) ..
  qed
  with e(1) show ?case by blast
qed

lemma round_done:
  assumes rs: "round_state t m (m - 1) t es" and m: "1 \<le> m" and t: "t \<le> 63"
  shows "get_thread_count (snd es) = 0
       \<and> (\<forall>j<t. ticks (sc_threads (snd es) ! j) = of_nat (m - 1)
                \<and> state (sc_threads (snd es) ! j) = THREAD_DONE \<and> fst es ! j = m)"
proof -
  from m have mm: "Suc (m - Suc 0) = m" "min m (m - Suc 0) = m - Suc 0" by arith+
  from rs have len: "length (sc_threads (snd es)) = 64" and cnt: "sc_thread_count (snd es) = t"
    and th: "\<And>j. j < t \<Longrightarrow> slices_run m m (fst es ! j) (sc_threads (snd es) ! j)"
    by (simp_all add: round_state_def SC_MAX_THREADS_def mm)
  have d: "ticks (sc_threads (snd es) ! j) = of_nat (m - 1)
                \<and> state (sc_threads (snd es) ! j) = THREAD_DONE \<and> fst es ! j = m" if "j < t" for j
    using th[OF that] by (simp add: slices_run_def mm)
  have "\<forall>x \<in> set (take (sc_thread_count (snd es)) (sc_threads (snd es))). \<not> state x \<noteq> THREAD_DONE"
    using d len cnt t by (auto simp: in_set_conv_nth)
  then have "get_thread_count (snd es) = 0"
    unfolding get_thread_count_def by (simp add: filter_empty_conv)
  with d show ?thesis by simp
qed

lemma round_start:
  assumes "spawned t fn s" "1 \<le> m" "t \<le> 63"
  shows "round_state t m 0 0 (replicate 64 0, s)"
  using assms by (auto simp: round_state_def spawned_def slices_run_def SC_MAX_THREADS_def)

lemma run_slices:
  assumes t: "t \<le> 63" and m: "1 \<le> m"
    and l: "length (sc_threads s0) = 64" "length (sc_run_queue s0) = 64" and fn: "fn \<noteq> 0"
  shows "\<exists>es'. run_until_done (slice_worker m) (m * t)
                  (replicate 64 0, spawn t fn (init_scheduler cpus s0)) = Some es'
              \<and> get_thread_count (snd es') = 0
              \<and> (\<forall>j<t. ticks (sc_threads (snd es') ! j) = of_nat (m - 1)
                       \<and> state (sc_threads (snd es') ! j) = THREAD_DONE \<and> fst es' ! j = m)"
proof -
  let ?es = "(replicate 64 (0::nat), spawn t fn (init_scheduler cpus s0))"
  have "spawned t fn (spawn t fn (init_scheduler cpus s0))"
    by (rule spawned_spawn[OF l fn t])
  then have rs: "round_state t m 0 0 ?es" using m t by (rule round_start)
  from m obtain k where k: "m = Suc k" by (cases m) auto
  then have "0 + Suc k = m" by simp
  from rounds_run[OF t rs this] obtain es' where e: "round_state t m (m - 1) t es'"
    "\<And>n. run_until_done (slice_worker m) (Suc k * t + n) ?es = run_until_done (slice_worker m) n es'"
    by blast
  from round_done[OF e(1) m t] have d: "get_thread_count (snd es') = 0"
    "\<forall>j<t. ticks (sc_threads (snd es') ! j) = of_nat (m - 1)
                \<and> state (sc_threads (snd es') ! j) = THREAD_DONE \<and> fst es' ! j = m" by simp_all
  have "run_until_done (slice_worker m) (m * t) ?es = Some es'"
    using e(2)[of 0] d(1) k by simp
  with d show ?thesis by blast
qed

section \<open>Equal threads run to completion\<close>

text \<open>
  C4 (as the code has it). Create \<open>t\<close> threads, at most the 63 that fit the run queue,
  whose body needs \<open>m \<ge> 1\<close> slices: it returns in the first \<open>m - 1\<close> slices and calls
  \<open>complete_current_thread\<close> in slice \<open>m\<close>. The loop that calls \<open>schedule_process\<close> until
  \<open>get_thread_count\<close> is 0 then ends after \<open>m * t\<close> calls, with every thread done after
  exactly \<open>m\<close> slices of its body. Its tick counter is \<open>m - 1\<close>, not \<open>m\<close>:
  \<open>schedule_process\<close> counts a tick only for a slice that ends in the implicit yield, and
  the completing slice clears \<open>sc_current_thread\<close> first.
\<close>

theorem C4_equal_threads_finish:
  assumes "t \<le> 63" and "1 \<le> m"
    and "length (sc_threads s0) = 64" and "length (sc_run_queue s0) = 64" and "fn \<noteq> 0"
  shows "\<exists>es'. run_until_done (slice_worker m) (m * t)
                  (replicate 64 0, spawn t fn (init_scheduler cpus s0)) = Some es'
              \<and> get_thread_count (snd es') = 0
              \<and> (\<forall>j<t. ticks (sc_threads (snd es') ! j) = of_nat (m - 1)
                       \<and> state (sc_threads (snd es') ! j) = THREAD_DONE \<and> fst es' ! j = m)"
  using assms by (rule run_slices)

theorem C4_witness:
  "(12::nat) \<le> 63 \<and> (1::nat) \<le> 100
   \<and> length (sc_threads sc_boot) = 64 \<and> length (sc_run_queue sc_boot) = 64
   \<and> (\<exists>es'. run_until_done (slice_worker 100) (100 * 12)
                  (replicate 64 0, spawn 12 1 (init_scheduler 4 sc_boot)) = Some es'
              \<and> get_thread_count (snd es') = 0
              \<and> (\<forall>j<12. ticks (sc_threads (snd es') ! j) = 99
                       \<and> state (sc_threads (snd es') ! j) = THREAD_DONE \<and> fst es' ! j = 100))"
proof -
  have h: "(12::nat) \<le> 63" "(1::nat) \<le> 100" "(1::nat) \<noteq> 0" by simp_all
  from C4_equal_threads_finish[OF h(1,2) sc_boot_lengths h(3), of 4] sc_boot_lengths
  show ?thesis by simp
qed

text \<open>The claim's own example, 12 threads of 100 slices on 4 CPUs: the loop ends with no
  thread left, and thread 0 has 99 ticks, not 100.\<close>

theorem C4_counterexample:
  "run_until_done (slice_worker 100) 1200
     (replicate 64 0, spawn 12 1 (init_scheduler 4 sc_boot)) \<noteq> None
   \<and> get_thread_count (snd (the (run_until_done (slice_worker 100) 1200
        (replicate 64 0, spawn 12 1 (init_scheduler 4 sc_boot))))) = 0
   \<and> ticks (sc_threads (snd (the (run_until_done (slice_worker 100) 1200
        (replicate 64 0, spawn 12 1 (init_scheduler 4 sc_boot))))) ! 0) = 99
   \<and> ticks (sc_threads (snd (the (run_until_done (slice_worker 100) 1200
        (replicate 64 0, spawn 12 1 (init_scheduler 4 sc_boot))))) ! 0) \<noteq> 100"
proof -
  have h: "(12::nat) \<le> 63" "(1::nat) \<le> 100" "(1::nat) \<noteq> 0" by simp_all
  from run_slices[OF h(1,2) sc_boot_lengths h(3), of 4]
  obtain es' where e: "run_until_done (slice_worker 100) (100 * 12)
                  (replicate 64 0, spawn 12 1 (init_scheduler 4 sc_boot)) = Some es'"
    "get_thread_count (snd es') = 0"
    "\<forall>j<12. ticks (sc_threads (snd es') ! j) = of_nat (100 - 1)" by blast
  from e(3) have "ticks (sc_threads (snd es') ! 0) = 99" by simp
  with e(1,2) show ?thesis by simp
qed

section \<open>Load balancing\<close>

lemma most_loaded_Suc:
  assumes "1 \<le> n"
  shows "most_loaded load (Suc n) =
         (if load ! n > load ! most_loaded load n then n else most_loaded load n)"
  using assms by (simp add: most_loaded_def)

lemma least_loaded_Suc:
  assumes "1 \<le> n"
  shows "least_loaded load (Suc n) =
         (if load ! n < load ! least_loaded load n then n else least_loaded load n)"
  using assms by (simp add: least_loaded_def)

lemma most_loaded_max:
  "1 \<le> n \<Longrightarrow> most_loaded load n < n \<and> (\<forall>c<n. load ! c \<le> load ! most_loaded load n)"
proof (induction n)
  case 0
  then show ?case by simp
next
  case (Suc n)
  show ?case
  proof (cases "n = 0")
    case True
    then show ?thesis by (simp add: most_loaded_def)
  next
    case False
    then have n: "1 \<le> n" by simp
    from Suc.IH[OF n] have b: "most_loaded load n < n" and m: "\<And>c. c < n \<Longrightarrow> load ! c \<le> load ! most_loaded load n"
      by simp_all
    show ?thesis unfolding most_loaded_Suc[OF n]
      using b m by (auto simp: less_Suc_eq intro: order_trans less_imp_le)
  qed
qed

lemma least_loaded_min:
  "1 \<le> n \<Longrightarrow> least_loaded load n < n \<and> (\<forall>c<n. load ! least_loaded load n \<le> load ! c)"
proof (induction n)
  case 0
  then show ?case by simp
next
  case (Suc n)
  show ?case
  proof (cases "n = 0")
    case True
    then show ?thesis by (simp add: least_loaded_def)
  next
    case False
    then have n: "1 \<le> n" by simp
    from Suc.IH[OF n] have b: "least_loaded load n < n" and m: "\<And>c. c < n \<Longrightarrow> load ! least_loaded load n \<le> load ! c"
      by simp_all
    show ?thesis unfolding least_loaded_Suc[OF n]
      using b m by (auto simp: less_Suc_eq intro: order_trans less_imp_le)
  qed
qed

lemma set_take_nth:
  assumes "n \<le> length xs"
  shows "set (take n xs) = {xs ! c | c. c < n}"
  unfolding nth_image[OF assms, symmetric] by auto

lemma Max_take:
  assumes "1 \<le> n" "n \<le> length (load :: int list)"
  shows "Max (set (take n load)) = load ! most_loaded load n"
proof (rule Max_eqI)
  show "finite (set (take n load))" by simp
  show "y \<le> load ! most_loaded load n" if "y \<in> set (take n load)" for y
    using that most_loaded_max[OF assms(1), of load] unfolding set_take_nth[OF assms(2)] by auto
  show "load ! most_loaded load n \<in> set (take n load)"
    using most_loaded_max[OF assms(1), of load] unfolding set_take_nth[OF assms(2)] by auto
qed

lemma Min_take:
  assumes "1 \<le> n" "n \<le> length (load :: int list)"
  shows "Min (set (take n load)) = load ! least_loaded load n"
proof (rule Min_eqI)
  show "finite (set (take n load))" by simp
  show "load ! least_loaded load n \<le> y" if "y \<in> set (take n load)" for y
    using that least_loaded_min[OF assms(1), of load] unfolding set_take_nth[OF assms(2)] by auto
  show "load ! least_loaded load n \<in> set (take n load)"
    using least_loaded_min[OF assms(1), of load] unfolding set_take_nth[OF assms(2)] by auto
qed

lemma load_gap_eq:
  assumes "1 \<le> sc_cpu_count s" "sc_cpu_count s \<le> length (sc_cpu_load s)"
  shows "load_gap s = sc_cpu_load s ! most_loaded (sc_cpu_load s) (sc_cpu_count s)
                    - sc_cpu_load s ! least_loaded (sc_cpu_load s) (sc_cpu_count s)"
  unfolding load_gap_def Max_take[OF assms] Min_take[OF assms] ..

text \<open>Moving one unit from a largest to a smallest entry that differ by two or more does
  not widen the range.\<close>

lemma gap_after_move:
  assumes n: "1 \<le> n" "n \<le> length (load :: int list)"
    and mx: "mx < n" "\<forall>c<n. load ! c \<le> load ! mx"
    and mn: "mn < n" "\<forall>c<n. load ! mn \<le> load ! c"
    and far: "load ! mx - load ! mn > 1"
  defines "load' \<equiv> (load[mx := load ! mx - 1])[mn := (load[mx := load ! mx - 1]) ! mn + 1]"
  shows "Max (set (take n load')) - Min (set (take n load'))
         \<le> Max (set (take n load)) - Min (set (take n load))"
proof -
  from far have ne: "mx \<noteq> mn" by auto
  have len: "n \<le> length load'" using n by (simp add: load'_def)
  have v: "load' ! c = (if c = mn then load ! mn + 1 else if c = mx then load ! mx - 1 else load ! c)"
    if "c < n" for c
    using that n ne by (simp add: load'_def nth_list_update)
  have bounds: "load ! mn \<le> load' ! c \<and> load' ! c \<le> load ! mx" if "c < n" for c
    using v[OF that] mx(2) mn(2) far that by (auto split: if_splits)
  have ne1: "set (take n load') \<noteq> {}" "set (take n load) \<noteq> {}" using n len by auto
  have "Max (set (take n load')) \<le> load ! mx"
    using bounds ne1 unfolding set_take_nth[OF len] by (subst Max_le_iff) auto
  moreover have "load ! mx \<le> Max (set (take n load))"
    using mx(1) unfolding set_take_nth[OF n(2)] by (intro Max_ge) auto
  moreover have "load ! mn \<le> Min (set (take n load'))"
    using bounds ne1 unfolding set_take_nth[OF len] by (subst Min_ge_iff) auto
  moreover have "Min (set (take n load)) \<le> load ! mn"
    using mn(1) unfolding set_take_nth[OF n(2)] by (intro Min_le) auto
  ultimately show ?thesis by linarith
qed

lemma moved_between:
  assumes n: "n \<le> length (load :: int list)"
    and mx: "mx < n" "\<forall>c<n. load ! c \<le> load ! mx"
    and mn: "mn < n" "\<forall>c<n. load ! mn \<le> load ! c"
    and far: "load ! mx - load ! mn > 1" and c: "c < n"
  defines "load' \<equiv> (load[mx := load ! mx - 1])[mn := (load[mx := load ! mx - 1]) ! mn + 1]"
  shows "load ! mn \<le> load' ! c \<and> load' ! c \<le> load ! mx"
proof -
  from far have ne: "mx \<noteq> mn" by auto
  have "load' ! c = (if c = mn then load ! mn + 1 else if c = mx then load ! mx - 1 else load ! c)"
    using c n ne mx(1) mn(1) by (simp add: load'_def nth_list_update)
  then show ?thesis
    using mx(2) mn(2) far c by (auto split: if_splits)
qed

text \<open>The 32-bit subtraction is exact on counters that count.\<close>

lemma int32_id:
  assumes "- 2147483648 \<le> x" "x \<le> 2147483647"
  shows "int32 x = x"
proof -
  from assms have "(x + 2147483648) mod 4294967296 = x + 2147483648"
    by (intro mod_pos_pos_trivial) simp_all
  then show ?thesis by (simp add: int32_def)
qed

text \<open>Behind the test of \<open>load_balance\<close> the larger counter is above the smaller one, so
  lowering the one and raising the other by one stays within \<open>int\<close>.\<close>

lemma int32_moved:
  assumes "- 2147483648 \<le> b" "b \<le> a" "a \<le> 2147483647" "1 < int32 (a - b)"
  shows "int32 (a - 1) = a - 1" "int32 (b + 1) = b + 1"
proof -
  have "a \<noteq> b"
  proof
    assume "a = b"
    with assms(4) show False by (simp add: int32_def)
  qed
  with assms(2) have "b < a" by simp
  with assms(1,3) show "int32 (a - 1) = a - 1" "int32 (b + 1) = b + 1"
    by (simp_all add: int32_id)
qed

lemma loads_diff:
  assumes "1 \<le> sc_cpu_count s" "loads_in_range s"
  shows "int32 (sc_cpu_load s ! most_loaded (sc_cpu_load s) (sc_cpu_count s)
                - sc_cpu_load s ! least_loaded (sc_cpu_load s) (sc_cpu_count s))
         = sc_cpu_load s ! most_loaded (sc_cpu_load s) (sc_cpu_count s)
           - sc_cpu_load s ! least_loaded (sc_cpu_load s) (sc_cpu_count s)"
proof -
  let ?mx = "most_loaded (sc_cpu_load s) (sc_cpu_count s)"
  let ?mn = "least_loaded (sc_cpu_load s) (sc_cpu_count s)"
  from most_loaded_max[OF assms(1), of "sc_cpu_load s"] least_loaded_min[OF assms(1), of "sc_cpu_load s"]
  have "?mx < sc_cpu_count s" "?mn < sc_cpu_count s" by simp_all
  with assms(2) have "0 \<le> sc_cpu_load s ! ?mx" "sc_cpu_load s ! ?mx \<le> 2147483647"
    "0 \<le> sc_cpu_load s ! ?mn" "sc_cpu_load s ! ?mn \<le> 2147483647"
    by (simp_all add: loads_in_range_def)
  then show ?thesis by (intro int32_id) linarith+
qed

lemma find_upt_Some:
  "find P [0..<n] = Some i \<longleftrightarrow> i < n \<and> P i \<and> (\<forall>j<i. \<not> P j)"
  by (auto simp: find_Some_iff)

lemma find_upt_None:
  "find P [0..<n] = None \<longleftrightarrow> (\<forall>j<n. \<not> P j)"
  by (auto simp: find_None_iff)

lemma load_balance_near:
  assumes "1 \<le> sc_cpu_count s" "loads_in_range s"
    and "sc_cpu_load s ! most_loaded (sc_cpu_load s) (sc_cpu_count s)
           - sc_cpu_load s ! least_loaded (sc_cpu_load s) (sc_cpu_count s) \<le> 1"
  shows "load_balance s = s"
  using assms(3) by (simp add: load_balance_def Let_def loads_diff[OF assms(1,2)])

lemma load_balance_none:
  assumes "find (\<lambda>i. state (sc_threads s ! i) = THREAD_READY
                     \<and> cpu_id (sc_threads s ! i) = most_loaded (sc_cpu_load s) (sc_cpu_count s))
                [0..<sc_thread_count s] = None"
  shows "load_balance s = s"
  using assms by (simp add: load_balance_def Let_def)

lemma load_balance_move:
  assumes "1 \<le> sc_cpu_count s" "loads_in_range s"
    and "\<not> sc_cpu_load s ! most_loaded (sc_cpu_load s) (sc_cpu_count s)
           - sc_cpu_load s ! least_loaded (sc_cpu_load s) (sc_cpu_count s) \<le> 1"
    and "find (\<lambda>i. state (sc_threads s ! i) = THREAD_READY
                     \<and> cpu_id (sc_threads s ! i) = most_loaded (sc_cpu_load s) (sc_cpu_count s))
                [0..<sc_thread_count s] = Some i"
  shows "load_balance s =
     s\<lparr>sc_threads := (sc_threads s)[i := (sc_threads s ! i)
                          \<lparr>cpu_id := least_loaded (sc_cpu_load s) (sc_cpu_count s)\<rparr>],
       sc_cpu_load := ((sc_cpu_load s)[most_loaded (sc_cpu_load s) (sc_cpu_count s) :=
                         sc_cpu_load s ! most_loaded (sc_cpu_load s) (sc_cpu_count s) - 1])
                      [least_loaded (sc_cpu_load s) (sc_cpu_count s) :=
                         ((sc_cpu_load s)[most_loaded (sc_cpu_load s) (sc_cpu_count s) :=
                         sc_cpu_load s ! most_loaded (sc_cpu_load s) (sc_cpu_count s) - 1])
                          ! least_loaded (sc_cpu_load s) (sc_cpu_count s) + 1]\<rparr>"
  using assms(3,4) by (simp add: load_balance_def Let_def loads_diff[OF assms(1,2)])

lemma loads_in_range_balance:
  assumes c: "1 \<le> sc_cpu_count s" "sc_cpu_count s \<le> length (sc_cpu_load s)"
    and r: "loads_in_range s"
  shows "loads_in_range (load_balance s)"
proof -
  let ?mx = "most_loaded (sc_cpu_load s) (sc_cpu_count s)"
  let ?mn = "least_loaded (sc_cpu_load s) (sc_cpu_count s)"
  let ?P = "\<lambda>i. state (sc_threads s ! i) = THREAD_READY \<and> cpu_id (sc_threads s ! i) = ?mx"
  show ?thesis
  proof (cases "sc_cpu_load s ! ?mx - sc_cpu_load s ! ?mn \<le> 1")
    case True
    then show ?thesis using r by (simp add: load_balance_near[OF c(1) r])
  next
    case far: False
    show ?thesis
    proof (cases "find ?P [0..<sc_thread_count s]")
      case None
      then show ?thesis using r by (simp add: load_balance_none)
    next
      case (Some i)
      from far have far': "sc_cpu_load s ! ?mx - sc_cpu_load s ! ?mn > 1" by simp
      from most_loaded_max[OF c(1), of "sc_cpu_load s"] least_loaded_min[OF c(1), of "sc_cpu_load s"]
      have m: "?mx < sc_cpu_count s" "\<forall>c < sc_cpu_count s. sc_cpu_load s ! c \<le> sc_cpu_load s ! ?mx"
        "?mn < sc_cpu_count s" "\<forall>c < sc_cpu_count s. sc_cpu_load s ! ?mn \<le> sc_cpu_load s ! c"
        by simp_all
      from r m(1,3) have b: "0 \<le> sc_cpu_load s ! ?mn" "sc_cpu_load s ! ?mx \<le> 2147483647"
        by (simp_all add: loads_in_range_def)
      show ?thesis
        unfolding load_balance_move[OF c(1) r far Some] loads_in_range_def
        using moved_between[OF c(2) m far'] b by fastforce
    qed
  qed
qed

lemma load_gap_balance:
  assumes c: "1 \<le> sc_cpu_count s" "sc_cpu_count s \<le> length (sc_cpu_load s)"
    and r: "loads_in_range s"
  shows "load_gap (load_balance s) \<le> load_gap s"
proof -
  let ?mx = "most_loaded (sc_cpu_load s) (sc_cpu_count s)"
  let ?mn = "least_loaded (sc_cpu_load s) (sc_cpu_count s)"
  let ?P = "\<lambda>i. state (sc_threads s ! i) = THREAD_READY \<and> cpu_id (sc_threads s ! i) = ?mx"
  show ?thesis
  proof (cases "sc_cpu_load s ! ?mx - sc_cpu_load s ! ?mn \<le> 1")
    case True
    then show ?thesis by (simp add: load_balance_near[OF c(1) r])
  next
    case far: False
    show ?thesis
    proof (cases "find ?P [0..<sc_thread_count s]")
      case None
      then show ?thesis by (simp add: load_balance_none)
    next
      case (Some i)
      from far have far': "sc_cpu_load s ! ?mx - sc_cpu_load s ! ?mn > 1" by simp
      from most_loaded_max[OF c(1), of "sc_cpu_load s"] least_loaded_min[OF c(1), of "sc_cpu_load s"]
      have m: "?mx < sc_cpu_count s" "\<forall>c < sc_cpu_count s. sc_cpu_load s ! c \<le> sc_cpu_load s ! ?mx"
        "?mn < sc_cpu_count s" "\<forall>c < sc_cpu_count s. sc_cpu_load s ! ?mn \<le> sc_cpu_load s ! c"
        by simp_all
      show ?thesis
        unfolding load_balance_move[OF c(1) r far Some] load_gap_def
        using gap_after_move[OF c m far'] by simp
    qed
  qed
qed

lemma card_moved:
  assumes i: "i < n" "i < length xs" "cpu_id (xs ! i) = 0" and c: "c \<noteq> 0"
  shows "int (card {j. j < n \<and> cpu_id (xs[i := (xs ! i)\<lparr>cpu_id := c\<rparr>] ! j) = 0})
         = int (card {j. j < n \<and> cpu_id (xs ! j) = 0}) - 1"
proof -
  let ?A = "{j. j < n \<and> cpu_id (xs ! j) = 0}"
  have "{j. j < n \<and> cpu_id (xs[i := (xs ! i)\<lparr>cpu_id := c\<rparr>] ! j) = 0} = ?A - {i}"
    using i c by (auto simp: nth_list_update)
  moreover have f: "finite ?A" by simp
  moreover have "i \<in> ?A" using i by simp
  moreover from this f have "card ?A \<ge> 1" by (metis One_nat_def Suc_leI card_gt_0_iff empty_iff)
  ultimately show ?thesis by (simp add: card_Diff_singleton)
qed

lemma levelling_step:
  assumes lv: "levelling s"
  shows "levelling (load_balance s)
       \<and> (load_gap s \<le> 1 \<longrightarrow> load_balance s = s)
       \<and> (1 < load_gap s \<longrightarrow> sc_cpu_load (load_balance s) ! 0 = sc_cpu_load s ! 0 - 1)"
proof -
  let ?ld = "sc_cpu_load s" and ?C = "sc_cpu_count s" and ?n = "sc_thread_count s"
  let ?mx = "most_loaded ?ld ?C" and ?mn = "least_loaded ?ld ?C"
  let ?P = "\<lambda>i. state (sc_threads s ! i) = THREAD_READY \<and> cpu_id (sc_threads s ! i) = ?mx"
  from lv have c: "1 \<le> ?C" "?C \<le> length ?ld" and n: "?n \<le> length (sc_threads s)"
    and rdy: "\<And>i. i < ?n \<Longrightarrow> state (sc_threads s ! i) = THREAD_READY"
    and l0: "?ld ! 0 = int (card {j. j < ?n \<and> cpu_id (sc_threads s ! j) = 0})"
    and r: "loads_in_range s"
    and near: "\<And>k k'. k < ?C \<Longrightarrow> k' < ?C \<Longrightarrow> 0 < k \<Longrightarrow> ?ld ! k \<le> ?ld ! k' + 1"
    by (simp_all add: levelling_def)
  from r have pos: "\<And>k. k < ?C \<Longrightarrow> 0 \<le> ?ld ! k" by (simp add: loads_in_range_def)
  have gap: "load_gap s = ?ld ! ?mx - ?ld ! ?mn" by (rule load_gap_eq[OF c])
  from most_loaded_max[OF c(1), of ?ld] least_loaded_min[OF c(1), of ?ld]
  have m: "?mx < ?C" "\<And>c. c < ?C \<Longrightarrow> ?ld ! c \<le> ?ld ! ?mx"
    "?mn < ?C" "\<And>c. c < ?C \<Longrightarrow> ?ld ! ?mn \<le> ?ld ! c"
    by simp_all
  show ?thesis
  proof (cases "?ld ! ?mx - ?ld ! ?mn \<le> 1")
    case True
    then show ?thesis using lv gap by (simp add: load_balance_near[OF c(1) r])
  next
    case far: False
    have mx0: "?mx = 0"
    proof (rule ccontr)
      assume "?mx \<noteq> 0"
      then have "?ld ! ?mx \<le> ?ld ! ?mn + 1" using near[OF m(1) m(3)] by simp
      with far show False by simp
    qed
    from far mx0 pos[OF m(3)] have big: "?ld ! 0 \<ge> ?ld ! ?mn + 2" "?ld ! 0 \<ge> 2" by simp_all
    have mn0: "?mn \<noteq> 0"
    proof
      assume "?mn = 0"
      with far mx0 show False by simp
    qed
    define A where "A = {j. j < ?n \<and> cpu_id (sc_threads s ! j) = 0}"
    from big(2) l0 have c2: "2 \<le> card A" unfolding A_def by linarith
    have "A \<noteq> {}"
    proof
      assume "A = {}"
      then have "card A = 0" by (simp only: card.empty)
      with c2 show False by simp
    qed
    then have "{j. j < ?n \<and> cpu_id (sc_threads s ! j) = 0} \<noteq> {}" unfolding A_def .
    then obtain j where j: "j < ?n" "cpu_id (sc_threads s ! j) = 0" by auto
    with rdy[OF j(1)] mx0 have "?P j" by simp
    with j(1) have "find ?P [0..<?n] \<noteq> None" by (auto simp: find_upt_None)
    then obtain i where f: "find ?P [0..<?n] = Some i" by auto
    then have i: "i < ?n" "cpu_id (sc_threads s ! i) = 0" using mx0 by (simp_all add: find_upt_Some)
    from i(1) n have il: "i < length (sc_threads s)" by simp
    define ld' where "ld' = (?ld[0 := ?ld ! 0 - 1])[?mn := (?ld[0 := ?ld ! 0 - 1]) ! ?mn + 1]"
    define th' where "th' = (sc_threads s)[i := (sc_threads s ! i)\<lparr>cpu_id := ?mn\<rparr>]"
    have lb: "load_balance s = s\<lparr>sc_threads := th', sc_cpu_load := ld'\<rparr>"
      using load_balance_move[OF c(1) r far f] unfolding th'_def ld'_def mx0 by simp
    have v: "ld' ! k = (if k = ?mn then ?ld ! ?mn + 1 else if k = 0 then ?ld ! 0 - 1 else ?ld ! k)"
      if "k < ?C" for k
    proof -
      from that c m(3) have "k < length ?ld" "0 < length ?ld" "?mn < length ?ld" by linarith+
      then show ?thesis using mn0 by (simp add: ld'_def nth_list_update)
    qed
    have c0: "0 < ?C" using c by simp
    have "levelling (s\<lparr>sc_threads := th', sc_cpu_load := ld'\<rparr>)"
      unfolding levelling_def
    proof (intro conjI allI impI)
      show "1 \<le> sc_cpu_count (s\<lparr>sc_threads := th', sc_cpu_load := ld'\<rparr>)" using c by simp
      show "sc_cpu_count (s\<lparr>sc_threads := th', sc_cpu_load := ld'\<rparr>)
            \<le> length (sc_cpu_load (s\<lparr>sc_threads := th', sc_cpu_load := ld'\<rparr>))"
        using c by (simp add: ld'_def)
      show "sc_thread_count (s\<lparr>sc_threads := th', sc_cpu_load := ld'\<rparr>)
            \<le> length (sc_threads (s\<lparr>sc_threads := th', sc_cpu_load := ld'\<rparr>))"
        using n by (simp add: th'_def)
      show "state (sc_threads (s\<lparr>sc_threads := th', sc_cpu_load := ld'\<rparr>) ! k) = THREAD_READY"
        if "k < sc_thread_count (s\<lparr>sc_threads := th', sc_cpu_load := ld'\<rparr>)" for k
        using that rdy[of k] by (simp add: th'_def nth_cpu_upd_state)
      show "sc_cpu_load (s\<lparr>sc_threads := th', sc_cpu_load := ld'\<rparr>) ! 0 =
            int (card {j. j < sc_thread_count (s\<lparr>sc_threads := th', sc_cpu_load := ld'\<rparr>)
                          \<and> cpu_id (sc_threads (s\<lparr>sc_threads := th', sc_cpu_load := ld'\<rparr>) ! j) = 0})"
        using card_moved[OF i(1) il i(2) mn0] v[OF c0] mn0 l0 by (simp add: th'_def)
      show "loads_in_range (s\<lparr>sc_threads := th', sc_cpu_load := ld'\<rparr>)"
        using loads_in_range_balance[OF c r] unfolding lb .
      show "sc_cpu_load (s\<lparr>sc_threads := th', sc_cpu_load := ld'\<rparr>) ! k
            \<le> sc_cpu_load (s\<lparr>sc_threads := th', sc_cpu_load := ld'\<rparr>) ! k' + 1"
        if "k < sc_cpu_count (s\<lparr>sc_threads := th', sc_cpu_load := ld'\<rparr>)"
           "k' < sc_cpu_count (s\<lparr>sc_threads := th', sc_cpu_load := ld'\<rparr>)" "0 < k" for k k'
      proof -
        from that have kk: "k < ?C" "k' < ?C" by simp_all
        have a: "?ld ! k \<le> ?ld ! ?mn + 1" using near[OF kk(1) m(3) that(3)] .
        have b: "?ld ! ?mn \<le> ?ld ! k'" using m(4)[OF kk(2)] .
        have d: "?ld ! k \<le> ?ld ! k' + 1" using near[OF kk(1) kk(2) that(3)] .
        show ?thesis using v[OF kk(1)] v[OF kk(2)] a b d big that(3)
          by (simp split: if_splits)
      qed
    qed
    moreover have "sc_cpu_load (s\<lparr>sc_threads := th', sc_cpu_load := ld'\<rparr>) ! 0 = ?ld ! 0 - 1"
      using v[OF c0] mn0 by simp
    ultimately show ?thesis unfolding lb using gap far by simp
  qed
qed

lemma load_balance_shape [simp]:
  "sc_cpu_count (load_balance s) = sc_cpu_count s"
  "length (sc_cpu_load (load_balance s)) = length (sc_cpu_load s)"
  "sc_thread_count (load_balance s) = sc_thread_count s"
  by (simp_all add: load_balance_def Let_def split: option.splits)

lemma load_balance_iter_shape [simp]:
  "sc_cpu_count ((load_balance ^^ k) s) = sc_cpu_count s"
  "length (sc_cpu_load ((load_balance ^^ k) s)) = length (sc_cpu_load s)"
  by (induction k) simp_all

lemma loads_in_range_iter:
  assumes "1 \<le> sc_cpu_count s" "sc_cpu_count s \<le> length (sc_cpu_load s)" "loads_in_range s"
  shows "loads_in_range ((load_balance ^^ k) s)"
proof (induction k)
  case 0
  show ?case using assms(3) by simp
next
  case (Suc k)
  from loads_in_range_balance[of "(load_balance ^^ k) s"] Suc assms(1,2)
  show ?case by simp
qed

lemma load_gap_iter:
  assumes "1 \<le> sc_cpu_count s" "sc_cpu_count s \<le> length (sc_cpu_load s)" "loads_in_range s"
  shows "load_gap ((load_balance ^^ Suc k) s) \<le> load_gap ((load_balance ^^ k) s)"
  using load_gap_balance[of "(load_balance ^^ k) s"] loads_in_range_iter[OF assms, of k] assms(1,2)
  by simp

lemma load_balance_one_thread:
  "\<exists>i. \<forall>j. j \<noteq> i \<longrightarrow> sc_threads (load_balance s) ! j = sc_threads s ! j"
proof (cases "load_balance s = s")
  case True
  then show ?thesis by simp
next
  case False
  then obtain i where "sc_threads (load_balance s)
      = (sc_threads s)[i := (sc_threads s ! i)\<lparr>cpu_id := least_loaded (sc_cpu_load s) (sc_cpu_count s)\<rparr>]"
    by (auto simp: load_balance_def Let_def split: option.splits if_splits)
  then have "\<forall>j. j \<noteq> i \<longrightarrow> sc_threads (load_balance s) ! j = sc_threads s ! j" by simp
  then show ?thesis ..
qed

lemma skewed_levelling:
  assumes "skewed n c s"
  shows "levelling s" and "sc_cpu_load s ! 0 = int n"
proof -
  from assms have c: "1 \<le> c" "c \<le> 8" "sc_cpu_count s = c" "length (sc_cpu_load s) = 8"
    and n: "n \<le> 64" "sc_thread_count s = n" "length (sc_threads s) = 64"
    and th: "\<And>i. i < n \<Longrightarrow> state (sc_threads s ! i) = THREAD_READY \<and> cpu_id (sc_threads s ! i) = 0"
    and l0: "sc_cpu_load s ! 0 = int n" and lk: "\<And>k. k < c \<Longrightarrow> 0 < k \<Longrightarrow> sc_cpu_load s ! k = 0"
    by (simp_all add: skewed_def SC_MAX_CPUS_def SC_MAX_THREADS_def)
  have "{j. j < n \<and> cpu_id (sc_threads s ! j) = 0} = {..<n}" using th by auto
  then have cd: "card {j. j < n \<and> cpu_id (sc_threads s ! j) = 0} = n" by simp
  have v: "sc_cpu_load s ! k = (if k = 0 then int n else 0)" if "k < c" for k
    using that l0 lk[of k] by (cases "k = 0") simp_all
  show "levelling s" unfolding levelling_def loads_in_range_def using c n th cd l0
    by (auto simp: v)
  show "sc_cpu_load s ! 0 = int n" by (rule l0)
qed

lemma levelling_iter:
  assumes "levelling s"
  shows "levelling ((load_balance ^^ k) s)"
  using assms levelling_step by (induction k) simp_all

lemma load_balance_fix:
  assumes "load_balance s = s"
  shows "(load_balance ^^ k) s = s"
  using assms by (induction k) simp_all

lemma levelling_converge:
  "levelling s \<Longrightarrow> sc_cpu_load s ! 0 \<le> int k \<Longrightarrow> load_gap ((load_balance ^^ k) s) \<le> 1"
proof (induction k arbitrary: s)
  case 0
  show ?case
  proof (rule ccontr)
    assume "\<not> load_gap ((load_balance ^^ 0) s) \<le> 1"
    then have g: "1 < load_gap s" by simp
    from levelling_step[OF "0.prems"(1)] g
    have lv: "levelling (load_balance s)" and d: "sc_cpu_load (load_balance s) ! 0 = sc_cpu_load s ! 0 - 1"
      by simp_all
    from lv have "0 \<le> sc_cpu_load (load_balance s) ! 0"
      by (simp add: levelling_def loads_in_range_def)
    with d "0.prems"(2) show False by simp
  qed
next
  case (Suc k)
  have sw: "(load_balance ^^ Suc k) s = (load_balance ^^ k) (load_balance s)"
    by (simp add: funpow_swap1)
  show ?case
  proof (cases "load_gap s \<le> 1")
    case True
    with levelling_step[OF Suc.prems(1)] have "load_balance s = s" by simp
    then have "(load_balance ^^ Suc k) s = s" by (rule load_balance_fix)
    with True show ?thesis by simp
  next
    case False
    with levelling_step[OF Suc.prems(1)]
    have lv: "levelling (load_balance s)" and d: "sc_cpu_load (load_balance s) ! 0 = sc_cpu_load s ! 0 - 1"
      by simp_all
    from d Suc.prems(2) have "sc_cpu_load (load_balance s) ! 0 \<le> int k" by simp
    from Suc.IH[OF lv this] show ?thesis unfolding sw .
  qed
qed

lemma skewed_converge:
  assumes "skewed n c s" "n \<le> k"
  shows "load_gap ((load_balance ^^ k) s) \<le> 1"
  using levelling_converge[OF skewed_levelling(1)[OF assms(1)], of k] skewed_levelling(2)[OF assms(1)] assms(2)
  by simp

lemma skewed_state_skewed:
  assumes "1 \<le> c" "c \<le> 8" "n \<le> 64"
  shows "skewed n c (skewed_state n c)"
  using assms
  by (simp add: skewed_def skewed_state_def sc_boot_def SC_MAX_CPUS_def SC_MAX_THREADS_def)

text \<open>Outside that range the subtraction wraps: with the counters \<open>INT_MAX\<close> and \<open>-1\<close> the
  difference comes out negative and \<open>load_balance\<close> leaves the ready thread where it is.\<close>

lemma load_balance_wrapped:
  "load_balance (sc_boot\<lparr>sc_cpu_count := 2, sc_thread_count := 1,
                         sc_cpu_load := [2147483647, - 1, 0, 0, 0, 0, 0, 0]\<rparr>)
   = sc_boot\<lparr>sc_cpu_count := 2, sc_thread_count := 1,
             sc_cpu_load := [2147483647, - 1, 0, 0, 0, 0, 0, 0]\<rparr>"
  by (simp add: load_balance_def most_loaded_def least_loaded_def int32_def Let_def upt_rec)

section \<open>What the load counters count\<close>

lemma live_on_finite [simp]: "finite (live_on c s)"
proof -
  have "live_on c s \<subseteq> {..<sc_thread_count s}" by (auto simp: live_on_def)
  then show ?thesis by (rule finite_subset) simp
qed

lemma live_on_card: "card (live_on c s) \<le> sc_thread_count s"
proof -
  have "live_on c s \<subseteq> {..<sc_thread_count s}" by (auto simp: live_on_def)
  then have "card (live_on c s) \<le> card {..<sc_thread_count s}" by (intro card_mono) simp_all
  then show ?thesis by simp
qed

lemma live_on_fields [simp]:
  "live_on c (s\<lparr>sc_cpu_load := ld\<rparr>) = live_on c s"
  "live_on c (s\<lparr>sc_current_thread := cur\<rparr>) = live_on c s"
  "live_on c (snd (push_rq i s)) = live_on c s"
  "live_on c (snd (pop_rq s)) = live_on c s"
  by (simp_all add: live_on_def)

lemma live_on_same:
  assumes "i < length (sc_threads s)" "cpu_id t = cpu_id (sc_threads s ! i)"
    "state t = THREAD_DONE \<longleftrightarrow> state (sc_threads s ! i) = THREAD_DONE"
  shows "live_on c (s\<lparr>sc_threads := (sc_threads s)[i := t]\<rparr>) = live_on c s"
  using assms by (auto simp: live_on_def nth_list_update)

lemma live_on_done:
  assumes "i < length (sc_threads s)" "i < sc_thread_count s"
    "state (sc_threads s ! i) \<noteq> THREAD_DONE"
  shows "live_on c (s\<lparr>sc_threads := (sc_threads s)[i := (sc_threads s ! i)\<lparr>state := THREAD_DONE\<rparr>]\<rparr>)
         = (if c = cpu_id (sc_threads s ! i) then live_on c s - {i} else live_on c s)"
    and "c = cpu_id (sc_threads s ! i) \<Longrightarrow> i \<in> live_on c s"
  using assms by (auto simp: live_on_def nth_list_update)

lemma live_on_new:
  assumes "sc_thread_count s < length (sc_threads s)" "state t \<noteq> THREAD_DONE"
  shows "live_on c (s\<lparr>sc_threads := (sc_threads s)[sc_thread_count s := t],
                      sc_thread_count := sc_thread_count s + 1\<rparr>)
         = (if c = cpu_id t then insert (sc_thread_count s) (live_on c s) else live_on c s)"
    and "sc_thread_count s \<notin> live_on c s"
  using assms by (auto simp: live_on_def nth_list_update less_Suc_eq)

lemma live_on_move:
  assumes "i < length (sc_threads s)" "i < sc_thread_count s"
    "state (sc_threads s ! i) \<noteq> THREAD_DONE" "cpu_id (sc_threads s ! i) = mx" "mn \<noteq> mx"
  shows "live_on c (s\<lparr>sc_threads := (sc_threads s)[i := (sc_threads s ! i)\<lparr>cpu_id := mn\<rparr>]\<rparr>)
         = (if c = mn then insert i (live_on c s) else if c = mx then live_on c s - {i}
            else live_on c s)"
    and "i \<in> live_on mx s" and "i \<notin> live_on mn s"
  using assms by (auto simp: live_on_def nth_list_update)

lemma card_drop:
  assumes "finite A" "i \<in> A"
  shows "int (card (A - {i})) = int (card A) - 1"
proof -
  from assms have "card A \<ge> 1" by (metis One_nat_def Suc_leI card_gt_0_iff empty_iff)
  with assms show ?thesis by (simp add: card_Diff_singleton)
qed

lemma card_add:
  assumes "finite A" "i \<notin> A"
  shows "int (card (insert i A)) = int (card A) + 1"
  using assms by simp

lemma countingD:
  assumes "counting s"
  shows "rq_wf s" "length (sc_threads s) = 64" "sc_thread_count s \<le> 64"
    "1 \<le> sc_cpu_count s" "sc_cpu_count s \<le> 8" "length (sc_cpu_load s) = 8"
    "\<And>i. i \<in> set (rq_list s) \<Longrightarrow> i < sc_thread_count s"
    "\<And>i. i < sc_thread_count s \<Longrightarrow> cpu_id (sc_threads s ! i) < sc_cpu_count s"
    "\<And>c. c < sc_cpu_count s \<Longrightarrow> sc_cpu_load s ! c = int (card (live_on c s))"
  using assms by (simp_all add: counting_def SC_MAX_THREADS_def SC_MAX_CPUS_def)

lemma countingI:
  assumes "rq_wf s" "length (sc_threads s) = 64" "sc_thread_count s \<le> 64"
    "1 \<le> sc_cpu_count s" "sc_cpu_count s \<le> 8" "length (sc_cpu_load s) = 8"
    "\<And>i. i \<in> set (rq_list s) \<Longrightarrow> i < sc_thread_count s"
    "\<And>i. i < sc_thread_count s \<Longrightarrow> cpu_id (sc_threads s ! i) < sc_cpu_count s"
    "\<And>c. c < sc_cpu_count s \<Longrightarrow> sc_cpu_load s ! c = int (card (live_on c s))"
  shows "counting s"
  using assms by (simp add: counting_def SC_MAX_THREADS_def SC_MAX_CPUS_def)

lemma counting_range:
  assumes "counting s"
  shows "loads_in_range s"
    and "\<And>c. c < sc_cpu_count s \<Longrightarrow> 0 \<le> sc_cpu_load s ! c \<and> sc_cpu_load s ! c \<le> 64"
proof -
  show b: "0 \<le> sc_cpu_load s ! c \<and> sc_cpu_load s ! c \<le> 64" if "c < sc_cpu_count s" for c
    using countingD(9)[OF assms that] live_on_card[of c s] countingD(3)[OF assms] by simp
  show "loads_in_range s" unfolding loads_in_range_def using b by fastforce
qed

lemma counting_init:
  assumes "length (sc_threads s0) = SC_MAX_THREADS" "length (sc_run_queue s0) = SC_MAX_THREADS"
  shows "counted (init_scheduler cpus s0)"
proof -
  have l: "live_on c (init_scheduler cpus s0) = {}" for c
    by (simp add: live_on_def init_scheduler_def Let_def)
  have q: "rq_list (init_scheduler cpus s0) = []"
    by (simp add: rq_list_def init_scheduler_def Let_def)
  have "counting (init_scheduler cpus s0)"
    unfolding counting_def l q using assms
    by (auto simp: init_scheduler_def Let_def rq_wf_def SC_MAX_THREADS_def SC_MAX_CPUS_def)
  then show ?thesis by (simp add: counted_def init_scheduler_def Let_def)
qed

lemma counting_current [simp]:
  "counting (s\<lparr>sc_current_thread := c\<rparr>) = counting s"
  by (simp add: counting_def)

lemma counting_push:
  assumes c: "counting s" and i: "i < sc_thread_count s"
  shows "counting (snd (push_rq i s))"
proof -
  note d = countingD[OF c]
  from rq_list_push_subset[OF d(1), of i] d(7) i
  have "\<And>j. j \<in> set (rq_list (snd (push_rq i s))) \<Longrightarrow> j < sc_thread_count s" by auto
  then show ?thesis using c rq_wf_push[OF d(1), of i] by (simp add: counting_def)
qed

lemma counting_pop:
  assumes c: "counting s"
  shows "counting (snd (pop_rq s))"
proof -
  note d = countingD[OF c]
  from pop_rq_cases[OF d(1)] have "set (rq_list (snd (pop_rq s))) \<subseteq> set (rq_list s)"
  proof
    assume "rq_list s = [] \<and> pop_rq s = (None, s)"
    then show ?thesis by simp
  next
    assume "\<exists>j. rq_list s = j # rq_list (snd (pop_rq s)) \<and> fst (pop_rq s) = Some j
              \<and> length (rq_list (snd (pop_rq s))) < 63"
    then obtain j where "rq_list s = j # rq_list (snd (pop_rq s))" by blast
    then have "set (rq_list s) = insert j (set (rq_list (snd (pop_rq s))))"
      by (metis list.simps(15))
    then show ?thesis by auto
  qed
  with d(7) have "\<And>j. j \<in> set (rq_list (snd (pop_rq s))) \<Longrightarrow> j < sc_thread_count s" by auto
  then show ?thesis using c rq_wf_pop[OF d(1)] by (simp add: counting_def)
qed

lemma counting_same:
  assumes c: "counting s" and i: "i < sc_thread_count s"
    and t: "cpu_id t = cpu_id (sc_threads s ! i)"
      "state t = THREAD_DONE \<longleftrightarrow> state (sc_threads s ! i) = THREAD_DONE"
  shows "counting (s\<lparr>sc_threads := (sc_threads s)[i := t]\<rparr>)"
proof -
  note d = countingD[OF c]
  from i d(2,3) have il: "i < length (sc_threads s)" by simp
  have "cpu_id ((sc_threads s)[i := t] ! j) = cpu_id (sc_threads s ! j)" for j
    using t(1) il by (cases "j = i") simp_all
  then show ?thesis using c live_on_same[OF il t]
    by (simp add: counting_def)
qed

lemma counting_complete:
  assumes c: "counting s" and cur: "sc_current_thread s = Some i" and i: "i < sc_thread_count s"
    and st: "state (sc_threads s ! i) \<noteq> THREAD_DONE"
  shows "counted (complete_current_thread s)"
proof -
  note d = countingD[OF c]
  from i d(2,3) have il: "i < length (sc_threads s)" by simp
  let ?k = "cpu_id (sc_threads s ! i)"
  let ?th = "(sc_threads s)[i := (sc_threads s ! i)\<lparr>state := THREAD_DONE\<rparr>]"
  let ?s' = "s\<lparr>sc_threads := ?th, sc_cpu_load := (sc_cpu_load s)[?k := sc_cpu_load s ! ?k - 1],
               sc_current_thread := None\<rparr>"
  have e: "complete_current_thread s = ?s'"
    using cur by (simp add: complete_current_thread_def Let_def)
  have k: "?k < sc_cpu_count s" by (rule d(8)[OF i])
  have cp: "cpu_id (?th ! j) = cpu_id (sc_threads s ! j)" for j
    using il by (cases "j = i") simp_all
  have lo: "live_on c ?s' = (if c = ?k then live_on c s - {i} else live_on c s)" for c
    using live_on_done(1)[OF il i st, of c] by (simp add: live_on_def)
  have "counting ?s'"
  proof (rule countingI)
    show "sc_cpu_load ?s' ! c = int (card (live_on c ?s'))" if "c < sc_cpu_count ?s'" for c
    proof (cases "c = ?k")
      case True
      have "i \<in> live_on ?k s" by (rule live_on_done(2)[OF il i st refl])
      then have "int (card (live_on ?k s - {i})) = int (card (live_on ?k s)) - 1"
        by (intro card_drop) simp_all
      with True d(9)[OF k] k d(5,6) show ?thesis unfolding lo by simp
    next
      case False
      with that d(9)[of c] show ?thesis unfolding lo by simp
    qed
  qed (use d cp in simp_all)
  then show ?thesis unfolding e by (simp add: counted_def)
qed

lemma counting_yield:
  assumes c: "counting s" and cur: "sc_current_thread s = Some i" and i: "i < sc_thread_count s"
    and st: "state (sc_threads s ! i) \<noteq> THREAD_DONE"
  shows "counted (yield s)"
proof -
  let ?s1 = "s\<lparr>sc_threads := (sc_threads s)[i := (sc_threads s ! i)\<lparr>state := THREAD_READY\<rparr>]\<rparr>"
  have "counting ?s1" by (rule counting_same[OF c i]) (use st in simp_all)
  then have "counting (snd (push_rq i ?s1))" by (rule counting_push) (use i in simp)
  then show ?thesis using cur by (simp add: yield_def counted_def)
qed

lemma counting_create:
  assumes c: "counting s"
  shows "counting (snd (create_thread fn a prio s))"
proof (cases "fn = 0 \<or> sc_thread_count s \<ge> SC_MAX_THREADS")
  case True
  then show ?thesis using c by (auto simp: create_thread_def)
next
  case False
  note d = countingD[OF c]
  let ?n = "sc_thread_count s"
  let ?b = "least_loaded (sc_cpu_load s) (sc_cpu_count s)"
  let ?t = "\<lparr>thread_id = ?n, cpu_id = ?b, priority = prio, quota = 1, entry = fn, arg = a,
             state = THREAD_READY, ticks = 0\<rparr>"
  let ?s0 = "s\<lparr>sc_threads := (sc_threads s)[?n := ?t], sc_thread_count := ?n + 1\<rparr>"
  let ?s1 = "s\<lparr>sc_threads := (sc_threads s)[?n := ?t], sc_thread_count := ?n + 1,
               sc_cpu_load := (sc_cpu_load s)[?b := sc_cpu_load s ! ?b + 1]\<rparr>"
  from False have n: "?n < 64" by (simp add: SC_MAX_THREADS_def)
  with d(2) have nl: "?n < length (sc_threads s)" by simp
  from least_loaded_min[OF d(4), of "sc_cpu_load s"] have b: "?b < sc_cpu_count s" by simp
  have lo: "live_on k ?s1 = (if k = ?b then insert ?n (live_on k s) else live_on k s)" for k
    using live_on_new(1)[OF nl, of ?t k] by (simp add: live_on_def)
  have "counting ?s1"
  proof (rule countingI)
    show "i < sc_thread_count ?s1" if "i \<in> set (rq_list ?s1)" for i
    proof -
      have "rq_list ?s1 = rq_list s" by (simp add: rq_list_def)
      with that d(7)[of i] show ?thesis by simp
    qed
    show "cpu_id (sc_threads ?s1 ! i) < sc_cpu_count ?s1" if "i < sc_thread_count ?s1" for i
      using that d(8)[of i] b nl by (cases "i = ?n") simp_all
    show "sc_cpu_load ?s1 ! k = int (card (live_on k ?s1))" if "k < sc_cpu_count ?s1" for k
    proof (cases "k = ?b")
      case True
      have "?n \<notin> live_on ?b s" by (rule live_on_new(2)[OF nl, of ?t]) simp
      then have "int (card (insert ?n (live_on ?b s))) = int (card (live_on ?b s)) + 1"
        by (intro card_add) simp_all
      with True d(9)[OF b] b d(5,6) show ?thesis unfolding lo by simp
    next
      case False
      with that d(9)[of k] show ?thesis unfolding lo by simp
    qed
    show "rq_wf ?s1" using d(1) by (simp add: rq_wf_def)
  qed (use d n in simp_all)
  then have "counting (snd (push_rq ?n ?s1))" by (rule counting_push) simp
  then show ?thesis using False by (simp add: create_thread_def Let_def)
qed

lemma counting_balance:
  assumes c: "counting s"
  shows "counting (load_balance s)"
proof -
  note d = countingD[OF c]
  note r = counting_range(1)[OF c]
  let ?mx = "most_loaded (sc_cpu_load s) (sc_cpu_count s)"
  let ?mn = "least_loaded (sc_cpu_load s) (sc_cpu_count s)"
  let ?P = "\<lambda>i. state (sc_threads s ! i) = THREAD_READY \<and> cpu_id (sc_threads s ! i) = ?mx"
  show ?thesis
  proof (cases "sc_cpu_load s ! ?mx - sc_cpu_load s ! ?mn \<le> 1")
    case True
    then show ?thesis using c by (simp add: load_balance_near[OF d(4) r])
  next
    case far: False
    show ?thesis
    proof (cases "find ?P [0..<sc_thread_count s]")
      case None
      then show ?thesis using c by (simp add: load_balance_none)
    next
      case (Some i)
      then have i: "i < sc_thread_count s" "state (sc_threads s ! i) = THREAD_READY"
        "cpu_id (sc_threads s ! i) = ?mx" by (simp_all add: find_upt_Some)
      from i(1) d(2,3) have il: "i < length (sc_threads s)" by simp
      from i(2) have nd: "state (sc_threads s ! i) \<noteq> THREAD_DONE" by simp
      from far have ne: "?mn \<noteq> ?mx" by auto
      from most_loaded_max[OF d(4), of "sc_cpu_load s"] least_loaded_min[OF d(4), of "sc_cpu_load s"]
      have m: "?mx < sc_cpu_count s" "?mn < sc_cpu_count s" by simp_all
      let ?th = "(sc_threads s)[i := (sc_threads s ! i)\<lparr>cpu_id := ?mn\<rparr>]"
      let ?ld = "((sc_cpu_load s)[?mx := sc_cpu_load s ! ?mx - 1])
                      [?mn := ((sc_cpu_load s)[?mx := sc_cpu_load s ! ?mx - 1]) ! ?mn + 1]"
      let ?s' = "s\<lparr>sc_threads := ?th, sc_cpu_load := ?ld\<rparr>"
      have lb: "load_balance s = ?s'" by (rule load_balance_move[OF d(4) r far Some])
      have lo: "live_on k ?s' = (if k = ?mn then insert i (live_on k s)
                                 else if k = ?mx then live_on k s - {i} else live_on k s)" for k
        using live_on_move(1)[OF il i(1) nd i(3) ne, of k] by (simp add: live_on_def)
      note mem = live_on_move(2,3)[OF il i(1) nd i(3) ne]
      have v: "?ld ! k = (if k = ?mn then sc_cpu_load s ! ?mn + 1
                          else if k = ?mx then sc_cpu_load s ! ?mx - 1 else sc_cpu_load s ! k)"
        if "k < sc_cpu_count s" for k
        using that m d(5,6) ne by (simp add: nth_list_update)
      have "counting ?s'"
      proof (rule countingI)
        show "cpu_id (sc_threads ?s' ! j) < sc_cpu_count ?s'" if "j < sc_thread_count ?s'" for j
          using that d(8)[of j] m(2) il by (cases "j = i") simp_all
        show "sc_cpu_load ?s' ! k = int (card (live_on k ?s'))" if "k < sc_cpu_count ?s'" for k
        proof -
          from that have k: "k < sc_cpu_count s" by simp
          have a: "int (card (insert i (live_on ?mn s))) = int (card (live_on ?mn s)) + 1"
            using mem(2) by (intro card_add) simp_all
          have b: "int (card (live_on ?mx s - {i})) = int (card (live_on ?mx s)) - 1"
            using mem(1) by (intro card_drop) simp_all
          show ?thesis
            using v[OF k] d(9)[OF k] d(9)[OF m(1)] d(9)[OF m(2)] a b ne unfolding lo
            by (cases "k = ?mn"; cases "k = ?mx") simp_all
        qed
      qed (use d in simp_all)
      then show ?thesis unfolding lb .
    qed
  qed
qed

lemma counted_schedule:
  assumes c: "counted s" and api: "api_fns fns"
  shows "counted (snd (schedule_process fns (e, s)))"
proof -
  from c have cg: "counting s" and cn: "sc_current_thread s = None" by (simp_all add: counted_def)
  note d = countingD[OF cg]
  from pop_rq_cases[OF d(1)] show ?thesis
  proof
    assume "rq_list s = [] \<and> pop_rq s = (None, s)"
    then show ?thesis using c by (simp add: schedule_process_def)
  next
    assume "\<exists>j. rq_list s = j # rq_list (snd (pop_rq s)) \<and> fst (pop_rq s) = Some j
              \<and> length (rq_list (snd (pop_rq s))) < 63"
    then obtain j where l: "rq_list s = j # rq_list (snd (pop_rq s))"
      and f: "fst (pop_rq s) = Some j" by blast
    define s1 where "s1 = snd (pop_rq s)"
    have pop: "pop_rq s = (Some j, s1)" using f by (simp add: s1_def prod_eq_iff)
    from l have "j \<in> set (rq_list s)" by (metis list.set_intros(1))
    then have j: "j < sc_thread_count s1" using d(7) by (simp add: s1_def)
    have c1: "counting s1" unfolding s1_def by (rule counting_pop[OF cg])
    have n1: "sc_current_thread s1 = None" using cn by (simp add: s1_def)
    show ?thesis
    proof (cases "state (sc_threads s1 ! j) \<noteq> THREAD_READY")
      case True
      then show ?thesis using pop counting_push[OF c1 j] n1
        by (simp add: schedule_process_def counted_def)
    next
      case False
      then have rdy: "state (sc_threads s1 ! j) = THREAD_READY" by simp
      define s2 where "s2 = s1\<lparr>sc_threads := (sc_threads s1)[j := (sc_threads s1 ! j)\<lparr>state := THREAD_RUNNING\<rparr>],
                        sc_current_thread := Some j\<rparr>"
      from countingD(2,3)[OF c1] j have jl: "j < length (sc_threads s1)" by simp
      have "counting (s1\<lparr>sc_threads := (sc_threads s1)[j := (sc_threads s1 ! j)\<lparr>state := THREAD_RUNNING\<rparr>]\<rparr>)"
        by (rule counting_same[OF c1 j]) (use rdy in simp_all)
      then have c2: "counting s2" by (simp add: s2_def)
      have cur2: "sc_current_thread s2 = Some j" and j2: "j < sc_thread_count s2"
        and st2: "state (sc_threads s2 ! j) \<noteq> THREAD_DONE"
        using j jl by (simp_all add: s2_def)
      define es3 where "es3 = fns (entry (sc_threads s2 ! j)) (arg (sc_threads s2 ! j)) (e, s2)"
      from api have "snd es3 = s2 \<or> snd es3 = yield s2 \<or> snd es3 = complete_current_thread s2"
        unfolding es3_def api_fns_def by blast
      then consider (ret) "snd es3 = s2" | (over) "counted (snd es3)"
        using counting_yield[OF c2 cur2 j2 st2] counting_complete[OF c2 cur2 j2 st2] by auto
      then have "counted (if sc_current_thread (snd es3) = Some j
               then (snd (push_rq j
                        ((snd es3)\<lparr>sc_threads := (sc_threads (snd es3))[j := (sc_threads (snd es3) ! j)
                               \<lparr>ticks := ticks (sc_threads (snd es3) ! j) + 1, state := THREAD_READY\<rparr>]\<rparr>)))
                     \<lparr>sc_current_thread := None\<rparr>
               else snd es3)"
      proof cases
        case ret
        have "counting (s2\<lparr>sc_threads := (sc_threads s2)[j := (sc_threads s2 ! j)
                               \<lparr>ticks := ticks (sc_threads s2 ! j) + 1, state := THREAD_READY\<rparr>]\<rparr>)"
          by (rule counting_same[OF c2 j2]) (use st2 in simp_all)
        then have "counting (snd (push_rq j (s2\<lparr>sc_threads := (sc_threads s2)[j := (sc_threads s2 ! j)
                               \<lparr>ticks := ticks (sc_threads s2 ! j) + 1, state := THREAD_READY\<rparr>]\<rparr>)))"
          by (rule counting_push) (use j2 in simp)
        then show ?thesis unfolding ret using cur2 by (simp add: counted_def)
      next
        case over
        then show ?thesis by (simp add: counted_def)
      qed
      then show ?thesis using pop False
        by (simp add: schedule_process_def Let_def s2_def[symmetric] es3_def[symmetric] if_distrib)
    qed
  qed
qed

lemma counted_step:
  assumes "counted (snd es)" "api_fns fns"
  shows "counted (snd (sc_step fns op es))"
proof (cases op)
  case (OpCreate fn a prio)
  have "sc_current_thread (snd (create_thread fn a prio (snd es))) = sc_current_thread (snd es)"
    by (simp add: create_thread_def Let_def)
  then show ?thesis using assms(1) counting_create[of "snd es" fn a prio]
    by (simp add: OpCreate counted_def)
next
  case OpSchedule
  then show ?thesis using counted_schedule[OF assms, of "fst es"] by simp
next
  case OpBalance
  have "sc_current_thread (load_balance (snd es)) = sc_current_thread (snd es)"
    by (simp add: load_balance_def Let_def split: option.splits)
  then show ?thesis using assms(1) counting_balance[of "snd es"]
    by (simp add: OpBalance counted_def)
qed

lemma counted_run:
  assumes "api_fns fns"
  shows "counted (snd es) \<Longrightarrow> counted (snd (sc_run fns ops es))"
  unfolding sc_run_def
proof (induction ops arbitrary: es)
  case Nil
  then show ?case by simp
next
  case (Cons op ops)
  from counted_step[OF Cons.prems assms] Cons.IH show ?case by simp
qed

text \<open>After \<open>init_scheduler\<close>, whatever the caller creates, schedules and balances, with
  entry functions that return, yield or complete, every counter in use stays between 0
  and the 64 threads there can be.\<close>

lemma interface_loads_in_range:
  assumes "api_fns fns"
    and "length (sc_threads s0) = SC_MAX_THREADS" "length (sc_run_queue s0) = SC_MAX_THREADS"
  shows "loads_in_range (snd (sc_run fns ops (e, init_scheduler cpus s0)))"
    and "\<forall>c < sc_cpu_count (snd (sc_run fns ops (e, init_scheduler cpus s0))).
           0 \<le> sc_cpu_load (snd (sc_run fns ops (e, init_scheduler cpus s0))) ! c
           \<and> sc_cpu_load (snd (sc_run fns ops (e, init_scheduler cpus s0))) ! c \<le> 64"
proof -
  have "counted (snd (e, init_scheduler cpus s0))"
    using counting_init[OF assms(2,3)] by simp
  from counted_run[OF assms(1) this, of ops]
  have c: "counting (snd (sc_run fns ops (e, init_scheduler cpus s0)))" by (simp add: counted_def)
  show "loads_in_range (snd (sc_run fns ops (e, init_scheduler cpus s0)))"
    by (rule counting_range(1)[OF c])
  show "\<forall>c < sc_cpu_count (snd (sc_run fns ops (e, init_scheduler cpus s0))).
           0 \<le> sc_cpu_load (snd (sc_run fns ops (e, init_scheduler cpus s0))) ! c
           \<and> sc_cpu_load (snd (sc_run fns ops (e, init_scheduler cpus s0))) ! c \<le> 64"
    using counting_range(2)[OF c] by blast
qed

text \<open>
  C6. In a state whose load counters count threads (none negative, each within \<open>int\<close>;
  \<open>interface_loads_in_range\<close> shows it of the states the interface produces),
  \<open>load_balance\<close> picks a least and a most loaded CPU among those in use. If their
  counters differ by at most one, nothing changes. Otherwise the first ready thread of
  the most loaded CPU, when there is one, is reassigned to the least loaded CPU, the one
  counter goes down by one and the other up by one, and nothing else changes; with no
  ready thread on that CPU the call changes nothing. Either way at most one thread record
  differs afterwards and the counters still count. Every further call leaves the gap
  between the largest and the smallest counter the same or smaller, and from \<open>n\<close> ready
  threads all on CPU 0 the gap is at most one after \<open>n\<close> calls and stays so.
\<close>

theorem C6_load_balance:
  assumes c: "1 \<le> sc_cpu_count s" "sc_cpu_count s \<le> length (sc_cpu_load s)"
    and r: "loads_in_range s"
  defines "mn \<equiv> least_loaded (sc_cpu_load s) (sc_cpu_count s)"
      and "mx \<equiv> most_loaded (sc_cpu_load s) (sc_cpu_count s)"
  shows "mn < sc_cpu_count s \<and> mx < sc_cpu_count s
       \<and> (\<forall>c < sc_cpu_count s. sc_cpu_load s ! mn \<le> sc_cpu_load s ! c
                               \<and> sc_cpu_load s ! c \<le> sc_cpu_load s ! mx)
       \<and> (sc_cpu_load s ! mx - sc_cpu_load s ! mn \<le> 1 \<longrightarrow> load_balance s = s)
       \<and> (\<forall>i. 1 < sc_cpu_load s ! mx - sc_cpu_load s ! mn
              \<and> i < sc_thread_count s
              \<and> state (sc_threads s ! i) = THREAD_READY \<and> cpu_id (sc_threads s ! i) = mx
              \<and> (\<forall>j<i. \<not> (state (sc_threads s ! j) = THREAD_READY \<and> cpu_id (sc_threads s ! j) = mx))
            \<longrightarrow> load_balance s =
                  s\<lparr>sc_threads := (sc_threads s)[i := (sc_threads s ! i)\<lparr>cpu_id := mn\<rparr>],
                    sc_cpu_load := (sc_cpu_load s)[mx := sc_cpu_load s ! mx - 1,
                                                  mn := sc_cpu_load s ! mn + 1]\<rparr>)
       \<and> ((\<forall>i < sc_thread_count s.
              \<not> (state (sc_threads s ! i) = THREAD_READY \<and> cpu_id (sc_threads s ! i) = mx))
            \<longrightarrow> load_balance s = s)
       \<and> (\<exists>i. \<forall>j. j \<noteq> i \<longrightarrow> sc_threads (load_balance s) ! j = sc_threads s ! j)
       \<and> loads_in_range (load_balance s)
       \<and> (\<forall>k. load_gap ((load_balance ^^ Suc k) s) \<le> load_gap ((load_balance ^^ k) s))
       \<and> (\<forall>n c. skewed n c s \<longrightarrow> (\<forall>k\<ge>n. load_gap ((load_balance ^^ k) s) \<le> 1))"
proof -
  let ?P = "\<lambda>i. state (sc_threads s ! i) = THREAD_READY \<and> cpu_id (sc_threads s ! i) = mx"
  from most_loaded_max[OF c(1), of "sc_cpu_load s"] least_loaded_min[OF c(1), of "sc_cpu_load s"]
  have m: "mn < sc_cpu_count s \<and> mx < sc_cpu_count s
       \<and> (\<forall>c < sc_cpu_count s. sc_cpu_load s ! mn \<le> sc_cpu_load s ! c
                               \<and> sc_cpu_load s ! c \<le> sc_cpu_load s ! mx)"
    by (simp add: mn_def mx_def)
  have near: "sc_cpu_load s ! mx - sc_cpu_load s ! mn \<le> 1 \<longrightarrow> load_balance s = s"
    unfolding mn_def mx_def using load_balance_near[OF c(1) r] by blast
  have move: "load_balance s =
                  s\<lparr>sc_threads := (sc_threads s)[i := (sc_threads s ! i)\<lparr>cpu_id := mn\<rparr>],
                    sc_cpu_load := (sc_cpu_load s)[mx := sc_cpu_load s ! mx - 1,
                                                  mn := sc_cpu_load s ! mn + 1]\<rparr>"
    if far: "1 < sc_cpu_load s ! mx - sc_cpu_load s ! mn" and i: "i < sc_thread_count s" "?P i"
      "\<forall>j<i. \<not> ?P j" for i
  proof -
    from far have nf: "\<not> sc_cpu_load s ! mx - sc_cpu_load s ! mn \<le> 1" by simp
    have f: "find ?P [0..<sc_thread_count s] = Some i"
      using i by (simp add: find_upt_Some)
    from far have ne: "mx \<noteq> mn" by auto
    have "((sc_cpu_load s)[mx := sc_cpu_load s ! mx - 1]) ! mn = sc_cpu_load s ! mn"
      using ne by simp
    then show ?thesis
      using load_balance_move[OF c(1) r nf[unfolded mn_def mx_def] f[unfolded mx_def]]
      by (simp add: mn_def mx_def)
  qed
  have none: "(\<forall>i < sc_thread_count s. \<not> ?P i) \<longrightarrow> load_balance s = s"
    using load_balance_none[of s] by (simp add: find_upt_None mx_def)
  have mono: "\<forall>k. load_gap ((load_balance ^^ Suc k) s) \<le> load_gap ((load_balance ^^ k) s)"
    using load_gap_iter[OF c r] by blast
  have conv: "\<forall>n c. skewed n c s \<longrightarrow> (\<forall>k\<ge>n. load_gap ((load_balance ^^ k) s) \<le> 1)"
    using skewed_converge by blast
  show ?thesis
    using m near move none load_balance_one_thread[of s] loads_in_range_balance[OF c r] mono conv
    by blast
qed

theorem C6_witness:
  "1 \<le> sc_cpu_count (skewed_state 16 4)
   \<and> sc_cpu_count (skewed_state 16 4) \<le> length (sc_cpu_load (skewed_state 16 4))
   \<and> loads_in_range (skewed_state 16 4)
   \<and> skewed 16 4 (skewed_state 16 4)
   \<and> most_loaded (sc_cpu_load (skewed_state 16 4)) 4 = 0
   \<and> least_loaded (sc_cpu_load (skewed_state 16 4)) 4 = 1
   \<and> 1 < sc_cpu_load (skewed_state 16 4) ! 0 - sc_cpu_load (skewed_state 16 4) ! 1
   \<and> state (sc_threads (skewed_state 16 4) ! 0) = THREAD_READY
   \<and> cpu_id (sc_threads (skewed_state 16 4) ! 0) = 0
   \<and> load_balance (skewed_state 16 4) =
        (skewed_state 16 4)\<lparr>sc_threads := (sc_threads (skewed_state 16 4))
                                [0 := (sc_threads (skewed_state 16 4) ! 0)\<lparr>cpu_id := 1\<rparr>],
                            sc_cpu_load := (sc_cpu_load (skewed_state 16 4))[0 := 15, 1 := 1]\<rparr>
   \<and> load_gap ((load_balance ^^ 16) (skewed_state 16 4)) \<le> 1
   \<and> load_gap ((load_balance ^^ 64) (skewed_state 16 4)) \<le> 1"
proof -
  let ?S = "skewed_state 16 4"
  let ?mn = "least_loaded (sc_cpu_load ?S) (sc_cpu_count ?S)"
  let ?mx = "most_loaded (sc_cpu_load ?S) (sc_cpu_count ?S)"
  have sk: "skewed 16 4 ?S"
    by (rule skewed_state_skewed) simp_all
  have c: "1 \<le> sc_cpu_count ?S" "sc_cpu_count ?S \<le> length (sc_cpu_load ?S)"
    by (simp_all add: skewed_state_def SC_MAX_CPUS_def)
  have r: "loads_in_range ?S"
    using skewed_levelling(1)[OF sk] by (simp add: levelling_def)
  have ev: "sc_cpu_count ?S = 4" "sc_thread_count ?S = 16" "?mx = 0" "?mn = 1"
    "sc_cpu_load ?S ! 0 = 16" "sc_cpu_load ?S ! 1 = 0"
    "state (sc_threads ?S ! 0) = THREAD_READY" "cpu_id (sc_threads ?S ! 0) = 0"
    by (simp_all add: skewed_state_def sc_boot_def SC_MAX_CPUS_def SC_MAX_THREADS_def
        most_loaded_def least_loaded_def upt_rec)
  have ev4: "most_loaded (sc_cpu_load ?S) 4 = 0" "least_loaded (sc_cpu_load ?S) 4 = 1"
    using ev(3,4) unfolding ev(1) .
  have pre: "1 < sc_cpu_load ?S ! ?mx - sc_cpu_load ?S ! ?mn
              \<and> 0 < sc_thread_count ?S
              \<and> state (sc_threads ?S ! 0) = THREAD_READY \<and> cpu_id (sc_threads ?S ! 0) = ?mx
              \<and> (\<forall>j<0. \<not> (state (sc_threads ?S ! j) = THREAD_READY \<and> cpu_id (sc_threads ?S ! j) = ?mx))"
    using ev ev4 by simp
  note T = C6_load_balance[OF c r]
  from T pre have mv: "load_balance ?S =
                  ?S\<lparr>sc_threads := (sc_threads ?S)[0 := (sc_threads ?S ! 0)\<lparr>cpu_id := ?mn\<rparr>],
                    sc_cpu_load := (sc_cpu_load ?S)[?mx := sc_cpu_load ?S ! ?mx - 1,
                                                  ?mn := sc_cpu_load ?S ! ?mn + 1]\<rparr>"
    by blast
  from T sk have cv: "\<forall>k\<ge>16. load_gap ((load_balance ^^ k) ?S) \<le> 1" by blast
  then have cv': "load_gap ((load_balance ^^ 16) ?S) \<le> 1" "load_gap ((load_balance ^^ 64) ?S) \<le> 1"
    by simp_all
  show ?thesis using c r sk mv cv' ev ev4 by simp
qed

section \<open>The page bitmap and the scan for a free frame\<close>

lemma bitmap_test_bit: "bitmap_test bm b \<longleftrightarrow> bit (bm ! (b div 8)) (b mod 8)"
  by (simp add: bitmap_test_def bit_iff_and_push_bit_not_eq_0)

lemma div_mod_8_eq: "(g::nat) = f \<longleftrightarrow> g div 8 = f div 8 \<and> g mod 8 = f mod 8"
  by (metis div_mult_mod_eq)

lemma bit_set_byte:
  fixes w :: "8 word"
  assumes "m < 8"
  shows "bit (w OR 2 ^ m) n \<longleftrightarrow> bit w n \<or> n = m"
  using assms by (auto simp: bit_or_iff bit_exp_iff)

lemma bit_clear_byte:
  fixes w :: "8 word"
  shows "bit (w AND NOT (2 ^ m)) n \<longleftrightarrow> bit w n \<and> n \<noteq> m"
  by (auto simp: bit_and_iff bit_not_iff bit_exp_iff dest: bit_imp_le_length)

lemma length_bitmap_set [simp]: "length (bitmap_set bm f) = length bm"
  by (simp add: bitmap_set_def)

lemma length_bitmap_clear [simp]: "length (bitmap_clear bm f) = length bm"
  by (simp add: bitmap_clear_def)

lemma bitmap_test_set:
  assumes "f div 8 < length bm"
  shows "bitmap_test (bitmap_set bm f) g \<longleftrightarrow> g = f \<or> bitmap_test bm g"
proof (cases "g div 8 = f div 8")
  case True
  then show ?thesis using assms
    by (auto simp: bitmap_test_bit bitmap_set_def bit_set_byte div_mod_8_eq[of g f])
next
  case False
  then show ?thesis by (auto simp: bitmap_test_bit bitmap_set_def)
qed

lemma bitmap_test_clear:
  assumes "f div 8 < length bm"
  shows "bitmap_test (bitmap_clear bm f) g \<longleftrightarrow> g \<noteq> f \<and> bitmap_test bm g"
proof (cases "g div 8 = f div 8")
  case True
  then show ?thesis using assms
    by (auto simp: bitmap_test_bit bitmap_clear_def bit_clear_byte div_mod_8_eq[of g f])
next
  case False
  then show ?thesis by (auto simp: bitmap_test_bit bitmap_clear_def)
qed

lemma byte_clear_set:
  fixes w :: "8 word"
  assumes "\<not> bit w m"
  shows "(w OR 2 ^ m) AND NOT (2 ^ m) = w"
  by (rule bit_eqI) (use assms in \<open>auto simp: bit_and_iff bit_or_iff bit_not_iff bit_exp_iff\<close>)

lemma bitmap_clear_set:
  assumes "\<not> bitmap_test bm f"
  shows "bitmap_clear (bitmap_set bm f) f = bm"
proof (cases "f div 8 < length bm")
  case True
  then show ?thesis using assms
    by (simp add: bitmap_clear_def bitmap_set_def bitmap_test_bit byte_clear_set list_update_same_conv)
next
  case False
  then show ?thesis by (simp add: bitmap_clear_def bitmap_set_def list_update_beyond)
qed

lemma find_free_from_Some:
  "find_free_from bm i = Some f \<Longrightarrow>
     i \<le> f \<and> f < 4096 \<and> \<not> bitmap_test bm f \<and> (\<forall>j. i \<le> j \<and> j < f \<longrightarrow> bitmap_test bm j)"
proof (induction bm i rule: find_free_from.induct)
  case (1 bm i)
  show ?case
  proof (cases "i < 4096 \<and> bitmap_test bm i")
    case True
    then have "find_free_from bm (i + 1) = Some f"
      using "1.prems" by (subst (asm) find_free_from.simps) (simp add: PHYS_MEMORY_END_def PAGE_SIZE_def)
    from "1.IH"[OF _ _ this] True
    have ih: "i + 1 \<le> f \<and> f < 4096 \<and> \<not> bitmap_test bm f \<and> (\<forall>j. i + 1 \<le> j \<and> j < f \<longrightarrow> bitmap_test bm j)"
      by (simp add: PHYS_MEMORY_END_def PAGE_SIZE_def)
    have "bitmap_test bm j" if "i \<le> j" "j < f" for j
      using that ih True by (cases "j = i") auto
    with ih show ?thesis by auto
  next
    case False
    then show ?thesis using "1.prems"
      by (subst (asm) find_free_from.simps) (auto simp: PHYS_MEMORY_END_def PAGE_SIZE_def split: if_splits)
  qed
qed

lemma find_free_from_None:
  "find_free_from bm i = None \<Longrightarrow> (\<forall>j. i \<le> j \<and> j < 4096 \<longrightarrow> bitmap_test bm j)"
proof (induction bm i rule: find_free_from.induct)
  case (1 bm i)
  show ?case
  proof (cases "i < 4096")
    case True
    from "1.prems" True have t: "bitmap_test bm i" and n: "find_free_from bm (i + 1) = None"
      by (subst (asm) find_free_from.simps, simp add: PHYS_MEMORY_END_def PAGE_SIZE_def split: if_splits)+
    from "1.IH"[OF _ _ n] True t have ih: "\<forall>j. i + 1 \<le> j \<and> j < 4096 \<longrightarrow> bitmap_test bm j"
      by (simp add: PHYS_MEMORY_END_def PAGE_SIZE_def)
    have "bitmap_test bm j" if "i \<le> j" "j < 4096" for j
      using that ih t by (cases "j = i") auto
    then show ?thesis by auto
  next
    case False
    then show ?thesis by auto
  qed
qed

lemma find_free_from_first:
  assumes "i \<le> f" "f < 4096" "\<not> bitmap_test bm f" "\<forall>j. i \<le> j \<and> j < f \<longrightarrow> bitmap_test bm j"
  shows "find_free_from bm i = Some f"
proof (cases "find_free_from bm i")
  case None
  from find_free_from_None[OF this] assms show ?thesis by auto
next
  case (Some g)
  from find_free_from_Some[OF this] assms have "g = f"
    by (metis linorder_neqE_nat)
  with Some show ?thesis by simp
qed

lemmas mm_consts = PAGE_SIZE_def KERNEL_END_def PHYS_MEMORY_END_def BITMAP_SIZE_def
  MAX_MEMORY_REGIONS_def kernel_pages_def

lemma find_free_page_Some:
  "fst (find_free_page s) = Some f \<longleftrightarrow> find_free_from (page_bitmap s) (next_free_page s) = Some f"
  by (simp add: find_free_page_def split: option.splits)

lemma find_free_page_None:
  "fst (find_free_page s) = None \<longleftrightarrow> find_free_from (page_bitmap s) (next_free_page s) = None"
  by (simp add: find_free_page_def split: option.splits)

lemma find_free_from_Some_iff:
  "find_free_from bm i = Some f \<longleftrightarrow>
     i \<le> f \<and> f < 4096 \<and> \<not> bitmap_test bm f \<and> (\<forall>j. i \<le> j \<and> j < f \<longrightarrow> bitmap_test bm j)"
  using find_free_from_Some[of bm i f] find_free_from_first[of i f bm] by blast

lemma find_free_from_None_iff:
  "find_free_from bm i = None \<longleftrightarrow> (\<forall>j. i \<le> j \<and> j < 4096 \<longrightarrow> bitmap_test bm j)"
proof
  assume "find_free_from bm i = None"
  then show "\<forall>j. i \<le> j \<and> j < 4096 \<longrightarrow> bitmap_test bm j" by (rule find_free_from_None)
next
  assume a: "\<forall>j. i \<le> j \<and> j < 4096 \<longrightarrow> bitmap_test bm j"
  show "find_free_from bm i = None"
  proof (cases "find_free_from bm i")
    case (Some f)
    from find_free_from_Some[OF this] a show ?thesis by auto
  qed simp
qed

lemma allocate_memory_ok:
  assumes "cur \<noteq> 0" "length (memory_regions s) < 1024"
    and "find_free_from (page_bitmap s) (next_free_page s) = Some f"
  shows "allocate_memory cur (of_nat PAGE_SIZE) s =
           (Inr (page_address f),
            s\<lparr>next_free_page := f + 1, page_bitmap := bitmap_set (page_bitmap s) f,
              memory_regions := memory_regions s @ [page_region f cur]\<rparr>)"
  using assms
  by (simp add: allocate_memory_def find_free_page_def register_memory_region_def
      MAX_MEMORY_REGIONS_def Let_def page_region_def)

lemma allocate_memory_oom:
  assumes "cur \<noteq> 0"
    and "find_free_from (page_bitmap s) (next_free_page s) = None"
  shows "allocate_memory cur (of_nat PAGE_SIZE) s = (Inl OUT_OF_MEMORY, s)"
  using assms by (simp add: allocate_memory_def find_free_page_def)

lemma allocate_memory_full:
  assumes "cur \<noteq> 0" "length (memory_regions s) \<ge> 1024"
    and "find_free_from (page_bitmap s) (next_free_page s) = Some f"
  shows "allocate_memory cur (of_nat PAGE_SIZE) s =
           (Inl REGION_REGISTRATION_FAILED, s\<lparr>next_free_page := f + 1\<rparr>)"
proof -
  from find_free_from_Some[OF assms(3)] have "\<not> bitmap_test (page_bitmap s) f" by simp
  then have "bitmap_clear (bitmap_set (page_bitmap s) f) f = page_bitmap s"
    by (rule bitmap_clear_set)
  then show ?thesis using assms
    by (simp add: allocate_memory_def find_free_page_def register_memory_region_def
      MAX_MEMORY_REGIONS_def Let_def)
qed

section \<open>Page addresses\<close>

lemma page_addr_unat:
  assumes "f < 4096"
  shows "unat (page_address f) = f * 4096"
proof -
  from assms have "f * 4096 < 2 ^ 32" by simp
  then have "(f * 4096) mod 2 ^ LENGTH(32) = f * 4096" by simp
  then show ?thesis by (simp only: page_address_def PAGE_SIZE_def unat_of_nat)
qed

lemma page_addr_inj:
  assumes "f < 4096" "g < 4096"
  shows "page_address f = page_address g \<longleftrightarrow> f = g"
proof
  assume "page_address f = page_address g"
  then have "unat (page_address f) = unat (page_address g)"
    by (rule arg_cong)
  then have "f * 4096 = g * 4096" by (simp only: page_addr_unat[OF assms(1)] page_addr_unat[OF assms(2)])
  then show "f = g" by simp
next
  assume "f = g"
  then show "page_address f = page_address g" by (rule arg_cong)
qed

lemma page_addr_0: "page_address 0 = 0"
  by (simp add: page_address_def)

lemma unat_plus_page:
  fixes p :: "32 word"
  assumes "\<not> p + 4096 < p"
  shows "unat (p + 4096) = unat p + 4096"
proof -
  from assms have "p \<le> p + 4096" by (simp only: not_less)
  then have "unat p + unat (4096 :: 32 word) < 2 ^ LENGTH(32)" by (simp only: no_olen_add_nat)
  then have "unat (p + 4096) = unat p + unat (4096 :: 32 word)" by (simp only: unat_add_lem)
  then show ?thesis by simp
qed

section \<open>Validation of a page access\<close>

text \<open>What a granted page access says about the address.\<close>

lemma validate_page_bounds:
  assumes "memory_protection_enabled s"
    and "validate_memory_access s cur p (of_nat PAGE_SIZE) acc = Granted"
  shows "p \<noteq> 0 \<and> 1048576 \<le> unat p \<and> unat p + 4096 \<le> 16777216 \<and> unat (p + 4096) = unat p + 4096
         \<and> check_regions (memory_regions s) cur p (p + 4096) acc = Granted"
proof -
  from assms have a: "p \<noteq> 0" "\<not> p + 4096 < p" "\<not> p < 1048576" "\<not> p + 4096 > 16777216"
    and c: "check_regions (memory_regions s) cur p (p + 4096) acc = Granted"
    by (simp_all add: validate_memory_access_def mm_consts split: if_splits)
  have u: "unat (p + 4096) = unat p + 4096" by (rule unat_plus_page[OF a(2)])
  from a(3) have "unat (1048576 :: 32 word) \<le> unat p" by (simp only: word_less_nat_alt not_less)
  then have "1048576 \<le> unat p" by simp
  moreover from a(4) have "unat (p + 4096) \<le> unat (16777216 :: 32 word)"
    by (simp only: word_less_nat_alt not_less)
  then have "unat p + 4096 \<le> 16777216" unfolding u by simp
  ultimately show ?thesis using a(1) u c by simp
qed

lemma is_page_regionD:
  assumes "is_page_region r"
  obtains f where "256 \<le> f" "f < 4096" "r = page_region f (owner r)" "owner r \<noteq> 0"
    "base_address r = page_address f" "region_size r = 4096" "protection r = 3"
    "unat (base_address r) = f * 4096"
proof -
  define f where "f = unat (base_address r) div 4096"
  from assms have f: "256 \<le> f" "f < 4096" "r = page_region f (owner r)" and o: "owner r \<noteq> 0"
    by (simp_all add: is_page_region_def mm_consts Let_def f_def)
  from f(3) have e: "base_address r = base_address (page_region f (owner r))"
    "region_size r = region_size (page_region f (owner r))"
    "protection r = protection (page_region f (owner r))" by simp_all
  have b1: "base_address r = page_address f"
    unfolding e(1) by (simp only: page_region_def memory_region_t.simps)
  have b2: "region_size r = 4096" unfolding e(2) by (simp add: page_region_def mm_consts)
  have b3: "protection r = 3" unfolding e(3)
    by (simp add: page_region_def MEM_PROT_READ_def MEM_PROT_WRITE_def)
  have "unat (base_address r) = f * 4096" unfolding b1 by (rule page_addr_unat[OF f(2)])
  with f o b1 b2 b3 that show ?thesis by blast
qed

lemma is_page_regionI:
  assumes "256 \<le> f" "f < 4096" "u \<noteq> 0"
  shows "is_page_region (page_region f u)"
proof -
  have b: "base_address (page_region f u) = page_address f" "owner (page_region f u) = u"
    by (simp_all only: page_region_def memory_region_t.simps)
  have "unat (base_address (page_region f u)) div 4096 = f"
    unfolding b page_addr_unat[OF assms(2)] by simp
  then show ?thesis using assms b(2) by (simp add: is_page_region_def mm_consts Let_def)
qed

lemma page_covers_iff:
  assumes pr: "is_page_region r" and u: "unat (p + 4096) = unat p + 4096"
  shows "(base_address r \<le> p \<and> p + 4096 \<le> base_address r + region_size r) \<longleftrightarrow> base_address r = p"
proof -
  from pr obtain f where f: "f < 4096" "region_size r = 4096" "unat (base_address r) = f * 4096"
    by (rule is_page_regionD)
  have ub: "unat (base_address r + 4096) = unat (base_address r) + 4096"
  proof -
    have "unat (base_address r) + unat (4096 :: 32 word) < 2 ^ LENGTH(32)" using f by simp
    then have "unat (base_address r + 4096) = unat (base_address r) + unat (4096 :: 32 word)"
      by (simp only: unat_add_lem)
    then show ?thesis by simp
  qed
  show ?thesis
  proof
    assume a: "base_address r \<le> p \<and> p + 4096 \<le> base_address r + region_size r"
    then have "unat (base_address r) \<le> unat p" by (simp only: word_le_nat_alt)
    moreover from a have "unat (p + 4096) \<le> unat (base_address r + 4096)"
      unfolding f(2) by (simp only: word_le_nat_alt)
    then have "unat p + 4096 \<le> unat (base_address r) + 4096" unfolding u ub .
    ultimately have "unat (base_address r) = unat p" by linarith
    then show "base_address r = p" by (simp only: word_unat_eq_iff)
  next
    assume "base_address r = p"
    then show "base_address r \<le> p \<and> p + 4096 \<le> base_address r + region_size r"
      using f(2) by simp
  qed
qed

lemma kernel_not_cover:
  assumes "1048576 \<le> unat p" "unat (p + 4096) = unat p + 4096"
  shows "\<not> (base_address kernel_region \<le> p
            \<and> p + 4096 \<le> base_address kernel_region + region_size kernel_region)"
proof -
  have "\<not> unat (p + 4096) \<le> unat (1048576 :: 32 word)"
    unfolding assms(2) using assms(1) by simp
  then have "\<not> p + 4096 \<le> (1048576 :: 32 word)" unfolding word_le_nat_alt .
  then show ?thesis by (simp add: kernel_region_def mm_consts)
qed

lemma check_regions_pages_Granted:
  assumes "\<forall>r \<in> set rs. is_page_region r" and u: "unat (p + 4096) = unat p + 4096"
    and "check_regions rs cur p (p + 4096) acc = Granted"
  shows "\<exists>r \<in> set rs. base_address r = p \<and> owner r = cur"
  using assms(1,3)
proof (induction rs)
  case Nil
  then show ?case by simp
next
  case (Cons r rs)
  then have pr: "is_page_region r" by simp
  show ?case
  proof (cases "base_address r = p")
    case True
    with page_covers_iff[OF pr u] Cons.prems(2) have "\<not> (owner r \<noteq> 0 \<and> owner r \<noteq> cur)"
      by (auto split: if_splits)
    moreover from pr have "owner r \<noteq> 0" by (simp add: is_page_region_def)
    ultimately show ?thesis using True by auto
  next
    case False
    with page_covers_iff[OF pr u] Cons.prems(2)
    have "check_regions rs cur p (p + 4096) acc = Granted" by auto
    with Cons.IH Cons.prems(1) show ?thesis by auto
  qed
qed

lemma check_regions_skip:
  assumes "\<forall>r \<in> set rs. is_page_region r" and u: "unat (p + 4096) = unat p + 4096"
    and "p \<notin> base_address ` set rs"
  shows "check_regions (rs @ rs') cur p (p + 4096) acc = check_regions rs' cur p (p + 4096) acc"
  using assms(1,3)
proof (induction rs)
  case Nil
  then show ?case by simp
next
  case (Cons r rs)
  then have pr: "is_page_region r" and ne: "base_address r \<noteq> p" by auto
  with page_covers_iff[OF pr u] Cons show ?case by auto
qed

lemma unregister_set: "set (snd (unregister_memory_region a rs)) \<subseteq> set rs"
  by (induction rs) auto

lemma unregister_bases:
  "distinct (map base_address rs) \<Longrightarrow>
   base_address ` set (snd (unregister_memory_region a rs)) = base_address ` set rs - {a}"
proof (induction rs)
  case Nil
  then show ?case by simp
next
  case (Cons r rs)
  show ?case
  proof (cases "base_address r = a")
    case True
    with Cons.prems have "a \<notin> base_address ` set rs" by auto
    with True show ?thesis by auto
  next
    case False
    with Cons show ?thesis by auto
  qed
qed

lemma unregister_distinct:
  "distinct (map base_address rs) \<Longrightarrow> distinct (map base_address (snd (unregister_memory_region a rs)))"
proof (induction rs)
  case Nil
  then show ?case by simp
next
  case (Cons r rs)
  then show ?case using unregister_set[of a rs] by auto
qed

lemma unregister_last:
  assumes "a \<notin> base_address ` set rs" "base_address x = a"
  shows "snd (unregister_memory_region a (rs @ [x])) = rs"
  using assms by (induction rs) auto

lemma length_fold_bitmap_set:
  "length (fold (\<lambda>p b. bitmap_set b p) ps bm) = length bm"
  by (induction ps arbitrary: bm) simp_all

lemma test_fold_set:
  "n \<le> 8 * length bm \<Longrightarrow>
   bitmap_test (fold (\<lambda>p b. bitmap_set b p) [0..<n] bm) g \<longleftrightarrow> g < n \<or> bitmap_test bm g"
proof (induction n)
  case 0
  then show ?case by simp
next
  case (Suc n)
  then have "n div 8 < length (fold (\<lambda>p b. bitmap_set b p) [0..<n] bm)"
    by (simp add: length_fold_bitmap_set less_mult_imp_div_less mult.commute)
  from bitmap_test_set[OF this, of g] Suc show ?case by auto
qed

lemma test_zero_bitmap:
  assumes "g < 8 * n"
  shows "\<not> bitmap_test (replicate n 0) g"
proof -
  from assms have "g div 8 < n" by (simp add: less_mult_imp_div_less mult.commute)
  then show ?thesis by (simp add: bitmap_test_bit)
qed

lemma init_bitmap_test:
  assumes "g < 4096"
  shows "bitmap_test (page_bitmap (init_memory_management s0)) g \<longleftrightarrow> g < 256"
proof -
  have k: "kernel_pages = 256" "BITMAP_SIZE = 512" by (simp_all add: mm_consts)
  have "bitmap_test (fold (\<lambda>p b. bitmap_set b p) [0..<256] (replicate 512 0)) g
        \<longleftrightarrow> g < 256 \<or> bitmap_test (replicate 512 0) g"
    by (rule test_fold_set) simp
  moreover have "\<not> bitmap_test (replicate 512 0) g"
    by (rule test_zero_bitmap) (use assms in simp)
  moreover have "page_bitmap (init_memory_management s0)
                 = fold (\<lambda>p b. bitmap_set b p) [0..<256] (replicate 512 0)"
    by (simp only: init_memory_management_def mm_state.simps k)
  ultimately show ?thesis by simp
qed

lemma init_fields:
  "length (page_bitmap (init_memory_management s0)) = 512"
  "next_free_page (init_memory_management s0) = 256"
  "memory_regions (init_memory_management s0) = [kernel_region]"
  "memory_protection_enabled (init_memory_management s0)"
  by (simp_all add: init_memory_management_def length_fold_bitmap_set mm_consts
      register_memory_region_def kernel_region_def)

section \<open>The allocator invariant\<close>

lemma mm_invD:
  assumes "mm_inv s"
  shows "length (page_bitmap s) = 512" "memory_protection_enabled s"
    "memory_regions s = kernel_region # tl (memory_regions s)"
    "\<And>r. r \<in> set (tl (memory_regions s)) \<Longrightarrow> is_page_region r"
    "distinct (map base_address (tl (memory_regions s)))"
    "\<And>f. f < 4096 \<Longrightarrow> bitmap_test (page_bitmap s) f \<longleftrightarrow> frame_allocated s f"
proof -
  from assms have "memory_regions s \<noteq> []" "hd (memory_regions s) = kernel_region"
    by (simp_all add: mm_inv_def)
  then show "memory_regions s = kernel_region # tl (memory_regions s)"
    by (cases "memory_regions s") simp_all
qed (use assms in \<open>simp_all add: mm_inv_def mm_consts\<close>)

lemma mm_invI:
  assumes "length (page_bitmap s) = 512" "memory_protection_enabled s"
    "memory_regions s = kernel_region # pages"
    "\<And>r. r \<in> set pages \<Longrightarrow> is_page_region r"
    "distinct (map base_address pages)"
    "\<And>f. f < 4096 \<Longrightarrow> bitmap_test (page_bitmap s) f \<longleftrightarrow> frame_allocated s f"
  shows "mm_inv s"
  using assms by (simp add: mm_inv_def mm_consts)

lemma frame_allocated_alt:
  assumes "memory_regions s = kernel_region # pages" "f < 4096"
  shows "frame_allocated s f \<longleftrightarrow> f < 256 \<or> page_address f \<in> base_address ` set pages"
proof -
  have "page_address 0 = page_address f \<longleftrightarrow> 0 = f"
    by (rule page_addr_inj) (use assms(2) in simp_all)
  then have "base_address kernel_region = page_address f \<longleftrightarrow> f = 0"
    by (auto simp: kernel_region_def page_addr_0)
  moreover have "frame_allocated s f \<longleftrightarrow> f < 256 \<or> base_address kernel_region = page_address f
              \<or> (\<exists>r\<in>set pages. base_address r = page_address f)"
    unfolding frame_allocated_def assms(1) by (simp add: mm_consts)
  moreover have "(\<exists>r\<in>set pages. base_address r = page_address f)
                 \<longleftrightarrow> page_address f \<in> base_address ` set pages" by force
  ultimately show ?thesis by auto
qed

lemma mm_inv_init: "mm_inv (init_memory_management s0)"
proof (rule mm_invI)
  show "memory_regions (init_memory_management s0) = kernel_region # []"
    by (simp add: init_fields)
  show "bitmap_test (page_bitmap (init_memory_management s0)) f
        \<longleftrightarrow> frame_allocated (init_memory_management s0) f" if "f < 4096" for f
    using init_bitmap_test[OF that] frame_allocated_alt[OF init_fields(3) that] by simp
qed (simp_all add: init_fields)

text \<open>A frame the scan returns is no kernel frame and has no region.\<close>

lemma free_frame_fresh:
  assumes inv: "mm_inv s" and f: "find_free_from (page_bitmap s) (next_free_page s) = Some f"
  shows "256 \<le> f" "f < 4096" "page_address f \<notin> base_address ` set (tl (memory_regions s))"
    "page_address f \<notin> base_address ` set (memory_regions s)"
proof -
  from find_free_from_Some[OF f] have b: "f < 4096" "\<not> bitmap_test (page_bitmap s) f" by simp_all
  from mm_invD(6)[OF inv b(1)] b(2) have na: "\<not> frame_allocated s f" by simp
  from na frame_allocated_alt[OF mm_invD(3)[OF inv] b(1)]
  show "256 \<le> f" "page_address f \<notin> base_address ` set (tl (memory_regions s))" by auto
  from na show "page_address f \<notin> base_address ` set (memory_regions s)"
    by (auto simp: frame_allocated_def)
  show "f < 4096" by (rule b(1))
qed

lemma mm_inv_hint: "mm_inv (s\<lparr>next_free_page := h\<rparr>) = mm_inv s"
  by (simp add: mm_inv_def frame_allocated_def)

lemma mm_inv_alloc:
  assumes inv: "mm_inv s"
  shows "mm_inv (snd (allocate_memory cur sz s))"
proof (cases "cur = 0 \<or> sz \<noteq> of_nat PAGE_SIZE")
  case True
  then show ?thesis using inv by (auto simp: allocate_memory_def)
next
  case False
  then have cur: "cur \<noteq> 0" and sz: "sz = of_nat PAGE_SIZE" by simp_all
  show ?thesis
  proof (cases "find_free_from (page_bitmap s) (next_free_page s)")
    case None
    then show ?thesis using inv allocate_memory_oom[OF cur None] by (simp add: sz)
  next
    case (Some f)
    note fr = free_frame_fresh[OF inv Some]
    show ?thesis
    proof (cases "length (memory_regions s) \<ge> 1024")
      case True
      from allocate_memory_full[OF cur True Some] inv show ?thesis
        by (simp add: sz mm_inv_hint)
    next
      case False
      then have nf: "length (memory_regions s) < 1024" by simp
      define s' where "s' = s\<lparr>next_free_page := f + 1, page_bitmap := bitmap_set (page_bitmap s) f,
              memory_regions := memory_regions s @ [page_region f cur]\<rparr>"
      have al: "snd (allocate_memory cur sz s) = s'"
        using allocate_memory_ok[OF cur nf Some] by (simp add: sz s'_def)
      have regs: "memory_regions s' = kernel_region # (tl (memory_regions s) @ [page_region f cur])"
      proof -
        have "memory_regions s @ [page_region f cur]
              = (kernel_region # tl (memory_regions s)) @ [page_region f cur]"
          using mm_invD(3)[OF inv] by simp
        then show ?thesis by (simp add: s'_def)
      qed
      have d8: "f div 8 < length (page_bitmap s)"
        using fr(2) mm_invD(1)[OF inv] by simp
      have "mm_inv s'"
      proof (rule mm_invI[OF _ _ regs])
        show "length (page_bitmap s') = 512" using mm_invD(1)[OF inv] by (simp add: s'_def)
        show "memory_protection_enabled s'" using mm_invD(2)[OF inv] by (simp add: s'_def)
        show "is_page_region r" if "r \<in> set (tl (memory_regions s) @ [page_region f cur])" for r
          using that mm_invD(4)[OF inv] is_page_regionI[OF fr(1,2) cur] by auto
        have "base_address (page_region f cur) = page_address f" by (simp add: page_region_def)
        then show "distinct (map base_address (tl (memory_regions s) @ [page_region f cur]))"
          using mm_invD(5)[OF inv] fr(3) by (simp add: image_iff)
        show "bitmap_test (page_bitmap s') g \<longleftrightarrow> frame_allocated s' g" if g: "g < 4096" for g
        proof -
          have "bitmap_test (page_bitmap s') g \<longleftrightarrow> g = f \<or> bitmap_test (page_bitmap s) g"
            using bitmap_test_set[OF d8, of g] by (simp add: s'_def)
          moreover have "frame_allocated s' g \<longleftrightarrow>
              g < 256 \<or> page_address g \<in> base_address ` set (tl (memory_regions s) @ [page_region f cur])"
            by (rule frame_allocated_alt[OF regs g])
          moreover have "frame_allocated s g \<longleftrightarrow>
              g < 256 \<or> page_address g \<in> base_address ` set (tl (memory_regions s))"
            by (rule frame_allocated_alt[OF mm_invD(3)[OF inv] g])
          moreover have "page_address g = base_address (page_region f cur) \<longleftrightarrow> g = f"
            using page_addr_inj[OF g fr(2)] by (simp add: page_region_def)
          ultimately show ?thesis using mm_invD(6)[OF inv g] by auto
        qed
      qed
      then show ?thesis unfolding al .
    qed
  qed
qed

lemma page_address_props:
  assumes f: "256 \<le> f" "f < 4096"
  shows "page_address f \<noteq> 0" "unat (page_address f + 4096) = unat (page_address f) + 4096"
    "\<not> page_address f + 4096 < page_address f"
    "\<not> page_address f < 1048576" "\<not> page_address f + 4096 > 16777216"
    "page_address f mod 4096 = 0" "unat (page_address f) div 4096 = f"
proof -
  note u = page_addr_unat[OF f(2)]
  show "page_address f \<noteq> 0"
  proof
    assume "page_address f = 0"
    then have "unat (page_address f) = 0" by simp
    with u f(1) show False by simp
  qed
  have "unat (page_address f) + unat (4096 :: 32 word) < 2 ^ LENGTH(32)" using u f(2) by simp
  then have "unat (page_address f + 4096) = unat (page_address f) + unat (4096 :: 32 word)"
    by (simp only: unat_add_lem)
  then show up: "unat (page_address f + 4096) = unat (page_address f) + 4096" by simp
  have "\<not> unat (page_address f + 4096) < unat (page_address f)" unfolding up by simp
  then show "\<not> page_address f + 4096 < page_address f" unfolding word_less_nat_alt .
  have "\<not> unat (page_address f) < unat (1048576 :: 32 word)" using u f(1) by simp
  then show "\<not> page_address f < 1048576" unfolding word_less_nat_alt .
  have "\<not> unat (page_address f + 4096) > unat (16777216 :: 32 word)" unfolding up using u f(2) by simp
  then show "\<not> page_address f + 4096 > 16777216" unfolding word_less_nat_alt .
  have "unat (page_address f mod 4096) = unat (page_address f) mod unat (4096 :: 32 word)"
    by (rule unat_mod)
  then have "unat (page_address f mod 4096) = 0" using u by simp
  then show "page_address f mod 4096 = 0" by (simp only: unat_eq_0)
  show "unat (page_address f) div 4096 = f" using u by simp
qed

lemma validate_page_address:
  assumes "memory_protection_enabled s" "256 \<le> f" "f < 4096"
  shows "validate_memory_access s cur (page_address f) (of_nat PAGE_SIZE) acc
         = check_regions (memory_regions s) cur (page_address f) (page_address f + 4096) acc"
  using assms(1) page_address_props[OF assms(2,3)]
  by (simp add: validate_memory_access_def mm_consts)

text \<open>The one path of \<open>free_memory\<close> that changes the state.\<close>

lemma free_memory_changes:
  assumes "snd (free_memory cur p s) \<noteq> s"
  shows "p \<noteq> 0" "validate_memory_access s cur p (of_nat PAGE_SIZE) MEM_PROT_WRITE = Granted"
    "cur \<noteq> 0" "unat p div 4096 < 4096"
    "free_memory cur p s = (MEMORY_FREED,
        s\<lparr>page_bitmap := bitmap_clear (page_bitmap s) (unat p div 4096),
          next_free_page := (if unat p div 4096 < next_free_page s then unat p div 4096
                             else next_free_page s),
          memory_regions := snd (unregister_memory_region p (memory_regions s))\<rparr>)"
  using assms by (auto simp: free_memory_def Let_def mm_consts split: if_splits)

lemma granted_page:
  assumes inv: "mm_inv s"
    and g: "validate_memory_access s cur p (of_nat PAGE_SIZE) acc = Granted"
  obtains f r where "256 \<le> f" "f < 4096" "p = page_address f" "unat p div 4096 = f"
    "r \<in> set (tl (memory_regions s))" "base_address r = p" "owner r = cur"
proof -
  from validate_page_bounds[OF mm_invD(2)[OF inv] g]
  have b: "1048576 \<le> unat p" "unat (p + 4096) = unat p + 4096"
    and c: "check_regions (memory_regions s) cur p (p + 4096) acc = Granted" by simp_all
  from c have "check_regions (kernel_region # tl (memory_regions s)) cur p (p + 4096) acc = Granted"
    using mm_invD(3)[OF inv] by simp
  with kernel_not_cover[OF b]
  have "check_regions (tl (memory_regions s)) cur p (p + 4096) acc = Granted"
    by (simp split: if_splits)
  from check_regions_pages_Granted[OF _ b(2) this] mm_invD(4)[OF inv]
  obtain r where r: "r \<in> set (tl (memory_regions s))" "base_address r = p" "owner r = cur" by blast
  from mm_invD(4)[OF inv r(1)] obtain f where f: "256 \<le> f" "f < 4096"
    "base_address r = page_address f" by (rule is_page_regionD)
  from f(3) r(2) have pf: "p = page_address f" by simp
  have "unat p div 4096 = f" unfolding pf by (rule page_address_props(7)[OF f(1,2)])
  with f pf r that show ?thesis by blast
qed

lemma mm_inv_free:
  assumes inv: "mm_inv s"
  shows "mm_inv (snd (free_memory cur p s))"
proof (cases "snd (free_memory cur p s) = s")
  case True
  then show ?thesis using inv by simp
next
  case False
  note ch = free_memory_changes[OF False]
  from granted_page[OF inv ch(2)] obtain f r where f: "256 \<le> f" "f < 4096" "p = page_address f"
    "unat p div 4096 = f" and r: "r \<in> set (tl (memory_regions s))" "base_address r = p" by metis
  define pages where "pages = tl (memory_regions s)"
  define pages' where "pages' = snd (unregister_memory_region p pages)"
  define s' where "s' = s\<lparr>page_bitmap := bitmap_clear (page_bitmap s) f,
          next_free_page := (if f < next_free_page s then f else next_free_page s),
          memory_regions := snd (unregister_memory_region p (memory_regions s))\<rparr>"
  have fr: "snd (free_memory cur p s) = s'" using ch(5) f(4) by (simp add: s'_def)
  have kb: "base_address kernel_region \<noteq> p" using ch(1) by (simp add: kernel_region_def)
  have regs0: "memory_regions s = kernel_region # pages"
    using mm_invD(3)[OF inv] by (simp add: pages_def)
  have "snd (unregister_memory_region p (kernel_region # pages)) = kernel_region # pages'"
    using kb by (simp add: pages'_def)
  then have regs: "memory_regions s' = kernel_region # pages'"
    by (simp add: s'_def regs0)
  have dist: "distinct (map base_address pages)" using mm_invD(5)[OF inv] by (simp add: pages_def)
  have bases: "base_address ` set pages' = base_address ` set pages - {p}"
    unfolding pages'_def by (rule unregister_bases[OF dist])
  have d8: "f div 8 < length (page_bitmap s)"
    using f(2) mm_invD(1)[OF inv] by simp
  have "mm_inv s'"
  proof (rule mm_invI[OF _ _ regs])
    show "length (page_bitmap s') = 512" using mm_invD(1)[OF inv] by (simp add: s'_def)
    show "memory_protection_enabled s'" using mm_invD(2)[OF inv] by (simp add: s'_def)
    show "is_page_region x" if "x \<in> set pages'" for x
      using that unregister_set[of p pages] mm_invD(4)[OF inv] by (auto simp: pages'_def pages_def)
    show "distinct (map base_address pages')"
      unfolding pages'_def by (rule unregister_distinct[OF dist])
    show "bitmap_test (page_bitmap s') g \<longleftrightarrow> frame_allocated s' g" if g: "g < 4096" for g
    proof -
      have "bitmap_test (page_bitmap s') g \<longleftrightarrow> g \<noteq> f \<and> bitmap_test (page_bitmap s) g"
        using bitmap_test_clear[OF d8, of g] by (simp add: s'_def)
      moreover have "frame_allocated s' g \<longleftrightarrow> g < 256 \<or> page_address g \<in> base_address ` set pages'"
        by (rule frame_allocated_alt[OF regs g])
      moreover have "frame_allocated s g \<longleftrightarrow> g < 256 \<or> page_address g \<in> base_address ` set pages"
        by (rule frame_allocated_alt[OF regs0 g])
      moreover have "page_address g = p \<longleftrightarrow> g = f"
        unfolding f(3) by (rule page_addr_inj[OF g f(2)])
      ultimately show ?thesis using mm_invD(6)[OF inv g] bases f(1) by auto
    qed
  qed
  then show ?thesis unfolding fr .
qed

lemma mm_inv_run: "mm_inv s \<Longrightarrow> mm_inv (mm_run ops s)"
  unfolding mm_run_def
proof (induction ops arbitrary: s)
  case Nil
  then show ?case by simp
next
  case (Cons op ops)
  have "mm_inv (mm_step op s)"
    using Cons.prems by (cases op) (simp_all add: mm_inv_alloc mm_inv_free)
  with Cons.IH show ?case by simp
qed

lemma first_alloc:
  assumes "cur \<noteq> 0"
  shows "allocate_memory cur (of_nat PAGE_SIZE) (init_memory_management s0) =
           (Inr (page_address 256),
            (init_memory_management s0)\<lparr>next_free_page := 257,
               page_bitmap := bitmap_set (page_bitmap (init_memory_management s0)) 256,
               memory_regions := [kernel_region, page_region 256 cur]\<rparr>)"
proof -
  have "find_free_from (page_bitmap (init_memory_management s0)) 256 = Some 256"
    by (rule find_free_from_first) (simp_all add: init_bitmap_test)
  then have "find_free_from (page_bitmap (init_memory_management s0))
               (next_free_page (init_memory_management s0)) = Some 256"
    by (simp add: init_fields)
  from allocate_memory_ok[OF assms _ this] show ?thesis by (simp add: init_fields)
qed

lemma live_frames_distinct:
  assumes inv: "mm_inv s"
  shows "distinct (map (\<lambda>r. unat (base_address r) div PAGE_SIZE) (tl (memory_regions s)))"
    and "distinct (map base_address (memory_regions s))"
proof -
  let ?pages = "tl (memory_regions s)"
  have b: "base_address r = page_address (unat (base_address r) div PAGE_SIZE)
           \<and> 256 \<le> unat (base_address r) div PAGE_SIZE" if "r \<in> set ?pages" for r
  proof -
    from mm_invD(4)[OF inv that] obtain f where f: "256 \<le> f" "f < 4096" "base_address r = page_address f"
      by (rule is_page_regionD)
    from page_address_props(7)[OF f(1,2)] f show ?thesis by (simp add: PAGE_SIZE_def)
  qed
  from mm_invD(5)[OF inv] have d: "distinct ?pages" "inj_on base_address (set ?pages)"
    by (simp_all add: distinct_map)
  have "inj_on (\<lambda>r. unat (base_address r) div PAGE_SIZE) (set ?pages)"
  proof (rule inj_onI)
    fix x y assume x: "x \<in> set ?pages" and y: "y \<in> set ?pages"
      and e: "unat (base_address x) div PAGE_SIZE = unat (base_address y) div PAGE_SIZE"
    from b[OF x] b[OF y] e have "base_address x = base_address y" by simp
    with d(2) x y show "x = y" by (simp add: inj_on_def)
  qed
  with d(1) show "distinct (map (\<lambda>r. unat (base_address r) div PAGE_SIZE) ?pages)"
    by (simp add: distinct_map)
  have "base_address kernel_region \<notin> base_address ` set ?pages"
  proof
    assume "base_address kernel_region \<in> base_address ` set ?pages"
    then obtain r where r: "r \<in> set ?pages" "base_address r = 0"
      by (auto simp: kernel_region_def)
    from mm_invD(4)[OF inv r(1)] obtain f where f: "256 \<le> f" "f < 4096" "base_address r = page_address f"
      by (rule is_page_regionD)
    from page_address_props(1)[OF f(1,2)] f(3) r(2) show False by simp
  qed
  then have "distinct (map base_address (kernel_region # ?pages))"
    using mm_invD(5)[OF inv] by simp
  then show "distinct (map base_address (memory_regions s))"
    using mm_invD(3)[OF inv] by simp
qed

lemma alloc_fresh:
  assumes inv: "mm_inv s" and a: "fst (allocate_memory cur sz s) = Inr a"
  shows "a \<notin> base_address ` set (memory_regions s)"
    and "unat a div PAGE_SIZE \<notin> (\<lambda>r. unat (base_address r) div PAGE_SIZE) ` set (tl (memory_regions s))"
proof -
  from a have cur: "cur \<noteq> 0" and sz: "sz = of_nat PAGE_SIZE"
    by (auto simp: allocate_memory_def split: if_splits)
  from a obtain f where f: "find_free_from (page_bitmap s) (next_free_page s) = Some f"
    using allocate_memory_oom[OF cur, of s] by (cases "find_free_from (page_bitmap s) (next_free_page s)") (auto simp: sz)
  have nf: "length (memory_regions s) < 1024"
  proof (rule ccontr)
    assume "\<not> length (memory_regions s) < 1024"
    then have "length (memory_regions s) \<ge> 1024" by simp
    from allocate_memory_full[OF cur this f] a show False by (simp add: sz)
  qed
  from allocate_memory_ok[OF cur nf f] a have af: "a = page_address f" by (simp add: sz)
  note fr = free_frame_fresh[OF inv f]
  show "a \<notin> base_address ` set (memory_regions s)" unfolding af by (rule fr(4))
  show "unat a div PAGE_SIZE \<notin> (\<lambda>r. unat (base_address r) div PAGE_SIZE) ` set (tl (memory_regions s))"
  proof
    assume "unat a div PAGE_SIZE \<in> (\<lambda>r. unat (base_address r) div PAGE_SIZE) ` set (tl (memory_regions s))"
    then obtain r where r: "r \<in> set (tl (memory_regions s))"
      "unat a div PAGE_SIZE = unat (base_address r) div PAGE_SIZE" by auto
    from mm_invD(4)[OF inv r(1)] obtain g where g: "256 \<le> g" "g < 4096" "base_address r = page_address g"
      by (rule is_page_regionD)
    from r(2) page_address_props(7)[OF g(1,2)] page_address_props(7)[OF fr(1,2)]
    have "f = g" unfolding af g(3) by (simp add: PAGE_SIZE_def)
    with g(3) have "page_address f = base_address r" by simp
    then have "page_address f \<in> base_address ` set (tl (memory_regions s))"
      using r(1) by (rule image_eqI)
    with fr(3) show False by simp
  qed
qed

section \<open>Live allocations\<close>

lemma check_regions_owner_Granted:
  assumes "\<forall>r \<in> set rs. is_page_region r" and d: "distinct (map base_address rs)"
    and u: "unat (p + 4096) = unat p + 4096"
    and "r \<in> set rs" "base_address r = p" "owner r = cur"
  shows "check_regions rs cur p (p + 4096) MEM_PROT_WRITE = Granted"
  using assms(1,2,4)
proof (induction rs)
  case Nil
  then show ?case by simp
next
  case (Cons x rs)
  then have px: "is_page_region x" by simp
  from px obtain f where x: "protection x = 3" "owner x \<noteq> 0" by (rule is_page_regionD)
  show ?case
  proof (cases "base_address x = p")
    case True
    with Cons.prems(2,3) assms(5) have "x = r" by (auto simp: image_iff)
    with page_covers_iff[OF px u] True assms(6) x show ?thesis
      by (simp add: MEM_PROT_WRITE_def)
  next
    case False
    with assms(5) Cons.prems(3) have "r \<in> set rs" by auto
    with Cons.IH Cons.prems(1,2) have "check_regions rs cur p (p + 4096) MEM_PROT_WRITE = Granted"
      by simp
    with page_covers_iff[OF px u] False show ?thesis by simp
  qed
qed

lemma owner_granted:
  assumes inv: "mm_inv s" and r: "r \<in> set (tl (memory_regions s))"
  shows "validate_memory_access s (owner r) (base_address r) (of_nat PAGE_SIZE) MEM_PROT_WRITE = Granted"
    and "base_address r \<noteq> 0" and "owner r \<noteq> 0" and "unat (base_address r) div 4096 < 4096"
proof -
  from mm_invD(4)[OF inv r] obtain f where f: "256 \<le> f" "f < 4096" "owner r \<noteq> 0"
    "base_address r = page_address f" by (rule is_page_regionD)
  note pp = page_address_props[OF f(1,2)]
  have k: "1048576 \<le> unat (page_address f)" using pp(4) by (simp add: word_less_nat_alt)
  have "check_regions (tl (memory_regions s)) (owner r) (page_address f) (page_address f + 4096)
          MEM_PROT_WRITE = Granted"
    by (rule check_regions_owner_Granted[OF _ mm_invD(5)[OF inv] pp(2) r f(4)])
       (use mm_invD(4)[OF inv] in simp_all)
  with kernel_not_cover[OF k pp(2)]
  have "check_regions (kernel_region # tl (memory_regions s)) (owner r) (page_address f)
          (page_address f + 4096) MEM_PROT_WRITE = Granted" by simp
  then have "check_regions (memory_regions s) (owner r) (page_address f)
          (page_address f + 4096) MEM_PROT_WRITE = Granted"
    using mm_invD(3)[OF inv] by simp
  then show "validate_memory_access s (owner r) (base_address r) (of_nat PAGE_SIZE) MEM_PROT_WRITE = Granted"
    unfolding f(4) validate_page_address[OF mm_invD(2)[OF inv] f(1,2)] .
  show "base_address r \<noteq> 0" unfolding f(4) by (rule pp(1))
  show "owner r \<noteq> 0" by (rule f(3))
  show "unat (base_address r) div 4096 < 4096" unfolding f(4) pp(7) by (rule f(2))
qed

text \<open>\<open>free_memory\<close> frees exactly what its caller holds.\<close>

lemma free_memory_freed_iff:
  assumes t: "tracked s live"
  shows "fst (free_memory cur ptr s) = MEMORY_FREED \<longleftrightarrow> live ptr = Some cur"
proof
  from t have inv: "mm_inv s" by (simp add: tracked_def)
  assume "fst (free_memory cur ptr s) = MEMORY_FREED"
  then have "validate_memory_access s cur ptr (of_nat PAGE_SIZE) MEM_PROT_WRITE = Granted"
    by (auto simp: free_memory_def Let_def split: if_splits)
  from granted_page[OF inv this] obtain r where "r \<in> set (tl (memory_regions s))"
    "base_address r = ptr" "owner r = cur" by metis
  with t show "live ptr = Some cur" unfolding tracked_def by blast
next
  from t have inv: "mm_inv s" by (simp add: tracked_def)
  assume "live ptr = Some cur"
  with t obtain r where r: "r \<in> set (tl (memory_regions s))" "base_address r = ptr" "owner r = cur"
    unfolding tracked_def by blast
  from owner_granted[OF inv r(1)] r(2,3) show "fst (free_memory cur ptr s) = MEMORY_FREED"
    by (simp add: free_memory_def Let_def mm_consts)
qed

lemma free_memory_keeps:
  assumes "fst (free_memory cur ptr s) \<noteq> MEMORY_FREED"
  shows "snd (free_memory cur ptr s) = s"
  using assms by (auto simp: free_memory_def Let_def split: if_splits)

lemma allocate_memory_fails:
  assumes "fst (allocate_memory cur sz s) = Inl e"
  shows "memory_regions (snd (allocate_memory cur sz s)) = memory_regions s"
  using assms
  by (auto simp: allocate_memory_def find_free_page_def register_memory_region_def Let_def
      split: if_splits option.splits prod.splits)

lemma unregister_mem:
  "distinct (map base_address rs) \<Longrightarrow>
   set (snd (unregister_memory_region a rs)) = {r \<in> set rs. base_address r \<noteq> a}"
proof (induction rs)
  case Nil
  then show ?case by simp
next
  case (Cons r rs)
  show ?case
  proof (cases "base_address r = a")
    case True
    with Cons.prems have "\<forall>x \<in> set rs. base_address x \<noteq> a" by (auto simp: image_iff)
    with True show ?thesis by auto
  next
    case False
    with Cons show ?thesis by auto
  qed
qed

lemma tracked_init: "tracked (init_memory_management s0) Map.empty"
  by (simp add: tracked_def mm_inv_init init_fields)

lemma tracked_alloc:
  assumes t: "tracked s live"
  shows "tracked (snd (allocate_memory cur sz s))
           (case fst (allocate_memory cur sz s) of Inl _ \<Rightarrow> live | Inr a \<Rightarrow> live(a \<mapsto> cur))"
proof (cases "fst (allocate_memory cur sz s)")
  case (Inl e)
  from t have inv: "mm_inv s" by (simp add: tracked_def)
  from allocate_memory_fails[OF Inl] t mm_inv_alloc[OF inv, of cur sz] show ?thesis
    by (simp add: tracked_def Inl)
next
  case (Inr a)
  from t have inv: "mm_inv s"
    and tr: "\<And>b u. live b = Some u
               \<longleftrightarrow> (\<exists>r \<in> set (tl (memory_regions s)). base_address r = b \<and> owner r = u)"
    by (simp_all add: tracked_def)
  from Inr have cur: "cur \<noteq> 0" and sz: "sz = of_nat PAGE_SIZE"
    by (auto simp: allocate_memory_def split: if_splits)
  from Inr obtain f where f: "find_free_from (page_bitmap s) (next_free_page s) = Some f"
    using allocate_memory_oom[OF cur, of s]
    by (cases "find_free_from (page_bitmap s) (next_free_page s)") (auto simp: sz)
  have nf: "length (memory_regions s) < 1024"
  proof (rule ccontr)
    assume "\<not> length (memory_regions s) < 1024"
    then have "length (memory_regions s) \<ge> 1024" by simp
    from allocate_memory_full[OF cur this f] Inr show False by (simp add: sz)
  qed
  note ok = allocate_memory_ok[OF cur nf f]
  from ok Inr have af: "a = page_address f" by (simp add: sz)
  note fr = free_frame_fresh[OF inv f]
  have ne: "memory_regions s \<noteq> []" using mm_invD(3)[OF inv] by auto
  have regs: "tl (memory_regions (snd (allocate_memory cur sz s)))
              = tl (memory_regions s) @ [page_region f cur]"
    using ok ne by (simp add: sz)
  have b: "base_address (page_region f cur) = a" "owner (page_region f cur) = cur"
    by (simp_all add: page_region_def af)
  have fresh: "\<forall>r \<in> set (tl (memory_regions s)). base_address r \<noteq> a"
    using fr(3) unfolding af by (auto simp: image_iff)
  have "(live(a \<mapsto> cur)) c = Some u
        \<longleftrightarrow> (\<exists>r \<in> set (tl (memory_regions s) @ [page_region f cur]). base_address r = c \<and> owner r = u)"
    for c u
  proof (cases "c = a")
    case True
    then show ?thesis using fresh b by auto
  next
    case False
    then show ?thesis using tr[of c u] b by auto
  qed
  with mm_inv_alloc[OF inv, of cur sz] show ?thesis
    unfolding tracked_def regs by (simp add: Inr)
qed

lemma tracked_free:
  assumes t: "tracked s live"
  shows "tracked (snd (free_memory cur ptr s))
           (if live ptr = Some cur then live(ptr := None) else live)"
proof (cases "live ptr = Some cur")
  case False
  with free_memory_freed_iff[OF t, of cur ptr] have "fst (free_memory cur ptr s) \<noteq> MEMORY_FREED"
    by simp
  from free_memory_keeps[OF this] t False show ?thesis by simp
next
  case True
  from t have inv: "mm_inv s"
    and tr: "\<And>b u. live b = Some u
               \<longleftrightarrow> (\<exists>r \<in> set (tl (memory_regions s)). base_address r = b \<and> owner r = u)"
    by (simp_all add: tracked_def)
  from True free_memory_freed_iff[OF t, of cur ptr]
  have ev: "fst (free_memory cur ptr s) = MEMORY_FREED" by simp
  then have p0: "ptr \<noteq> 0"
    and regs: "memory_regions (snd (free_memory cur ptr s))
               = snd (unregister_memory_region ptr (memory_regions s))"
    by (auto simp: free_memory_def Let_def split: if_splits)
  have kb: "base_address kernel_region \<noteq> ptr" using p0 by (simp add: kernel_region_def)
  have "snd (unregister_memory_region ptr (kernel_region # tl (memory_regions s)))
        = kernel_region # snd (unregister_memory_region ptr (tl (memory_regions s)))"
    using kb by simp
  then have tl': "tl (memory_regions (snd (free_memory cur ptr s)))
                  = snd (unregister_memory_region ptr (tl (memory_regions s)))"
    unfolding regs using mm_invD(3)[OF inv] by simp
  note um = unregister_mem[OF mm_invD(5)[OF inv], of ptr]
  have "(live(ptr := None)) c = Some u
        \<longleftrightarrow> (\<exists>r \<in> set (snd (unregister_memory_region ptr (tl (memory_regions s)))).
               base_address r = c \<and> owner r = u)" for c u
    unfolding um using tr[of c u] by (cases "c = ptr") auto
  with mm_inv_free[OF inv, of cur ptr] True show ?thesis
    unfolding tracked_def tl' by simp
qed

lemma tracked_fold:
  "tracked s live \<Longrightarrow> tracked (fst (fold track ops (s, live))) (snd (fold track ops (s, live)))"
proof (induction ops arbitrary: s live)
  case Nil
  then show ?case by simp
next
  case (Cons op ops)
  have "tracked (fst (track op (s, live))) (snd (track op (s, live)))"
    using tracked_alloc[OF Cons.prems] tracked_free[OF Cons.prems] by (cases op) simp_all
  from Cons.IH[OF this] show ?case by simp
qed

lemma fst_fold_track: "fst (fold track ops (s, live)) = mm_run ops s"
  unfolding mm_run_def
proof (induction ops arbitrary: s live)
  case Nil
  show ?case by simp
next
  case (Cons op ops)
  have "track op (s, live) = (mm_step op s, snd (track op (s, live)))"
    by (cases op) simp_all
  then have "fold track (op # ops) (s, live) = fold track ops (mm_step op s, snd (track op (s, live)))"
    by simp
  with Cons.IH show ?case by simp
qed

lemma tracked_history:
  "tracked (fst (mm_history ops (init_memory_management s0)))
           (snd (mm_history ops (init_memory_management s0)))"
  unfolding mm_history_def by (rule tracked_fold[OF tracked_init])

lemma tracked_bits:
  assumes t: "tracked s live" and f: "f < 4096"
  shows "bitmap_test (page_bitmap s) f \<longleftrightarrow> f < 256 \<or> live (page_address f) \<noteq> None"
proof -
  from t have inv: "mm_inv s"
    and tr: "\<And>b u. live b = Some u
               \<longleftrightarrow> (\<exists>r \<in> set (tl (memory_regions s)). base_address r = b \<and> owner r = u)"
    by (simp_all add: tracked_def)
  have "page_address f \<in> base_address ` set (tl (memory_regions s))
        \<longleftrightarrow> live (page_address f) \<noteq> None"
  proof
    assume "page_address f \<in> base_address ` set (tl (memory_regions s))"
    then obtain r where "r \<in> set (tl (memory_regions s))" "base_address r = page_address f"
      by auto
    with tr[of "page_address f" "owner r"] show "live (page_address f) \<noteq> None" by auto
  next
    assume "live (page_address f) \<noteq> None"
    then obtain u where "live (page_address f) = Some u" by auto
    with tr[of "page_address f" u] obtain r where "r \<in> set (tl (memory_regions s))"
      "base_address r = page_address f" by auto
    then show "page_address f \<in> base_address ` set (tl (memory_regions s))"
      by (metis imageI)
  qed
  with mm_invD(6)[OF inv f] frame_allocated_alt[OF mm_invD(3)[OF inv] f] show ?thesis by simp
qed

lemma tracked_live:
  assumes t: "tracked s live" and l: "live a = Some u"
  shows "a = page_address (unat a div 4096)" "256 \<le> unat a div 4096" "unat a div 4096 < 4096"
    "u \<noteq> 0"
proof -
  from t l obtain r where r: "r \<in> set (tl (memory_regions s))" "base_address r = a" "owner r = u"
    unfolding tracked_def by blast
  from t have inv: "mm_inv s" by (simp add: tracked_def)
  from mm_invD(4)[OF inv r(1)] obtain f where f: "256 \<le> f" "f < 4096" "owner r \<noteq> 0"
    "base_address r = page_address f" by (rule is_page_regionD)
  from page_address_props(7)[OF f(1,2)] f r
  show "a = page_address (unat a div 4096)" "256 \<le> unat a div 4096" "unat a div 4096 < 4096"
    "u \<noteq> 0" by auto
qed

lemma tracked_fresh:
  assumes t: "tracked s live" and a: "fst (allocate_memory cur sz s) = Inr a"
  shows "live a = None" "\<And>b. live b \<noteq> None \<Longrightarrow> unat b div 4096 \<noteq> unat a div 4096"
proof -
  from t have inv: "mm_inv s"
    and tr: "\<And>b u. live b = Some u
               \<longleftrightarrow> (\<exists>r \<in> set (tl (memory_regions s)). base_address r = b \<and> owner r = u)"
    by (simp_all add: tracked_def)
  note fr = alloc_fresh[OF inv a]
  show n: "live a = None"
  proof (cases "live a")
    case (Some u)
    with tr[of a u] obtain r where "r \<in> set (tl (memory_regions s))" "base_address r = a" by auto
    then have "a \<in> base_address ` set (memory_regions s)"
      using mm_invD(3)[OF inv] by (metis image_eqI list.set_intros(2))
    with fr(1) show ?thesis by simp
  qed simp
  show "unat b div 4096 \<noteq> unat a div 4096" if "live b \<noteq> None" for b
  proof
    assume e: "unat b div 4096 = unat a div 4096"
    from that obtain u where "live b = Some u" by auto
    with tr[of b u] obtain r where r: "r \<in> set (tl (memory_regions s))" "base_address r = b" by auto
    from r(1) have "unat (base_address r) div PAGE_SIZE
          \<in> (\<lambda>r. unat (base_address r) div PAGE_SIZE) ` set (tl (memory_regions s))"
      by (rule imageI)
    with fr(2) e r(2) show False by (simp add: PAGE_SIZE_def)
  qed
qed

lemma free_memory_freed_state:
  assumes "fst (free_memory cur p s) = MEMORY_FREED"
  shows "snd (free_memory cur p s) =
           s\<lparr>page_bitmap := bitmap_clear (page_bitmap s) (unat p div 4096),
             next_free_page := (if unat p div 4096 < next_free_page s then unat p div 4096
                                else next_free_page s),
             memory_regions := snd (unregister_memory_region p (memory_regions s))\<rparr>"
  using assms by (auto simp: free_memory_def Let_def mm_consts split: if_splits)

lemma unregister_length: "length (snd (unregister_memory_region a rs)) \<le> length rs"
  by (induction rs) auto


section \<open>Bitmap invariant and double allocation\<close>

text \<open>
  C7. Run any sequence of \<open>allocate_memory\<close> and \<open>free_memory\<close> calls, by whatever users and
  with whatever arguments, after \<open>init_memory_management\<close>, and keep beside it the live
  allocations: the addresses the calls of \<open>allocate_memory\<close> returned and their users have
  not freed since. Then a frame's bit is set exactly if the frame is a kernel frame or
  the frame of a live allocation. Every live address is the address of its frame, a frame
  above the kernel's, so no two live allocations have the same frame; an address that
  \<open>allocate_memory\<close> returns next is not live, nor is its frame that of a live allocation;
  \<open>free_memory\<close> frees exactly the live addresses of the current user; and the registry
  lists, after the kernel's region, exactly the live allocations.
\<close>

theorem C7_bitmap_invariant:
  fixes ops :: "mm_op list" and s0 :: mm_state
  defines "s \<equiv> fst (mm_history ops (init_memory_management s0))"
      and "live \<equiv> snd (mm_history ops (init_memory_management s0))"
  shows "s = mm_run ops (init_memory_management s0)
   \<and> (\<forall>f < PHYS_MEMORY_END div PAGE_SIZE.
         bitmap_test (page_bitmap s) f \<longleftrightarrow> f < kernel_pages \<or> live (page_address f) \<noteq> None)
   \<and> (\<forall>a u. live a = Some u \<longrightarrow>
         a = page_address (unat a div PAGE_SIZE) \<and> kernel_pages \<le> unat a div PAGE_SIZE
         \<and> unat a div PAGE_SIZE < PHYS_MEMORY_END div PAGE_SIZE \<and> u \<noteq> 0)
   \<and> (\<forall>a b. live a \<noteq> None \<and> live b \<noteq> None \<and> unat a div PAGE_SIZE = unat b div PAGE_SIZE
         \<longrightarrow> a = b)
   \<and> (\<forall>cur sz a. fst (allocate_memory cur sz s) = Inr a \<longrightarrow>
         live a = None \<and> (\<forall>b. live b \<noteq> None \<longrightarrow> unat b div PAGE_SIZE \<noteq> unat a div PAGE_SIZE))
   \<and> (\<forall>cur ptr. fst (free_memory cur ptr s) = MEMORY_FREED \<longleftrightarrow> live ptr = Some cur)
   \<and> (\<forall>a u. live a = Some u
         \<longleftrightarrow> (\<exists>r \<in> set (tl (memory_regions s)). base_address r = a \<and> owner r = u))"
proof -
  have t: "tracked s live" unfolding s_def live_def by (rule tracked_history)
  have run: "s = mm_run ops (init_memory_management s0)"
    unfolding s_def mm_history_def by (rule fst_fold_track)
  have bits: "\<forall>f < PHYS_MEMORY_END div PAGE_SIZE.
         bitmap_test (page_bitmap s) f \<longleftrightarrow> f < kernel_pages \<or> live (page_address f) \<noteq> None"
    using tracked_bits[OF t] by (simp add: mm_consts)
  have lv: "\<forall>a u. live a = Some u \<longrightarrow>
         a = page_address (unat a div PAGE_SIZE) \<and> kernel_pages \<le> unat a div PAGE_SIZE
         \<and> unat a div PAGE_SIZE < PHYS_MEMORY_END div PAGE_SIZE \<and> u \<noteq> 0"
    using tracked_live[OF t] by (simp add: mm_consts)
  have inj: "\<forall>a b. live a \<noteq> None \<and> live b \<noteq> None \<and> unat a div PAGE_SIZE = unat b div PAGE_SIZE
         \<longrightarrow> a = b"
  proof (intro allI impI)
    fix a b
    assume h: "live a \<noteq> None \<and> live b \<noteq> None \<and> unat a div PAGE_SIZE = unat b div PAGE_SIZE"
    then obtain u v where "live a = Some u" "live b = Some v" by auto
    from tracked_live(1)[OF t this(1)] tracked_live(1)[OF t this(2)] h
    show "a = b" by (simp add: PAGE_SIZE_def)
  qed
  have fresh: "\<forall>cur sz a. fst (allocate_memory cur sz s) = Inr a \<longrightarrow>
         live a = None \<and> (\<forall>b. live b \<noteq> None \<longrightarrow> unat b div PAGE_SIZE \<noteq> unat a div PAGE_SIZE)"
    using tracked_fresh[OF t] by (simp add: PAGE_SIZE_def)
  have fr: "\<forall>cur ptr. fst (free_memory cur ptr s) = MEMORY_FREED \<longleftrightarrow> live ptr = Some cur"
    using free_memory_freed_iff[OF t] by simp
  have reg: "\<forall>a u. live a = Some u
         \<longleftrightarrow> (\<exists>r \<in> set (tl (memory_regions s)). base_address r = a \<and> owner r = u)"
    using t by (simp add: tracked_def)
  from run bits lv inj fresh fr reg show ?thesis by (intro conjI)
qed

theorem C7_witness:
  "(256::nat) < PHYS_MEMORY_END div PAGE_SIZE \<and> (257::nat) < PHYS_MEMORY_END div PAGE_SIZE
   \<and> snd (mm_history [Alloc 5 (of_nat PAGE_SIZE), Alloc 6 (of_nat PAGE_SIZE), Free 5 (page_address 256)]
            (init_memory_management mm_boot)) (page_address 256) = None
   \<and> snd (mm_history [Alloc 5 (of_nat PAGE_SIZE), Alloc 6 (of_nat PAGE_SIZE), Free 5 (page_address 256)]
            (init_memory_management mm_boot)) (page_address 257) = Some 6
   \<and> \<not> bitmap_test (page_bitmap
          (mm_run [Alloc 5 (of_nat PAGE_SIZE), Alloc 6 (of_nat PAGE_SIZE), Free 5 (page_address 256)]
             (init_memory_management mm_boot))) 256
   \<and> bitmap_test (page_bitmap
          (mm_run [Alloc 5 (of_nat PAGE_SIZE), Alloc 6 (of_nat PAGE_SIZE), Free 5 (page_address 256)]
             (init_memory_management mm_boot))) 257
   \<and> fst (free_memory 6 (page_address 257)
          (mm_run [Alloc 5 (of_nat PAGE_SIZE), Alloc 6 (of_nat PAGE_SIZE), Free 5 (page_address 256)]
             (init_memory_management mm_boot))) = MEMORY_FREED
   \<and> fst (free_memory 5 (page_address 257)
          (mm_run [Alloc 5 (of_nat PAGE_SIZE), Alloc 6 (of_nat PAGE_SIZE), Free 5 (page_address 256)]
             (init_memory_management mm_boot))) \<noteq> MEMORY_FREED
   \<and> fst (allocate_memory 7 (of_nat PAGE_SIZE)
          (mm_run [Alloc 5 (of_nat PAGE_SIZE), Alloc 6 (of_nat PAGE_SIZE), Free 5 (page_address 256)]
             (init_memory_management mm_boot))) = Inr (page_address 256)"
proof -
  let ?i = "init_memory_management mm_boot"
  let ?P = "of_nat PAGE_SIZE :: 32 word"
  let ?W = "[Alloc 5 ?P, Alloc 6 ?P, Free 5 (page_address 256)]"
  let ?p = "page_address 256" and ?q = "page_address 257"
  define S1 where "S1 = ?i\<lparr>next_free_page := 257, page_bitmap := bitmap_set (page_bitmap ?i) 256,
                     memory_regions := [kernel_region, page_region 256 5]\<rparr>"
  define S2 where "S2 = S1\<lparr>next_free_page := 258, page_bitmap := bitmap_set (page_bitmap S1) 257,
                     memory_regions := [kernel_region, page_region 256 5, page_region 257 6]\<rparr>"
  define S3 where "S3 = snd (free_memory 5 ?p S2)"
  have lt: "(256::nat) < PHYS_MEMORY_END div PAGE_SIZE" "(257::nat) < PHYS_MEMORY_END div PAGE_SIZE"
    by (simp_all add: mm_consts)
  have ne: "?q \<noteq> ?p" "?p \<noteq> ?q" using page_addr_inj[of 257 256] by auto
  have a1: "allocate_memory 5 ?P ?i = (Inr ?p, S1)"
    using first_alloc[of 5 mm_boot] by (simp add: S1_def)
  have "\<not> bitmap_test (page_bitmap S1) 257"
    unfolding S1_def by (simp add: bitmap_test_set init_fields init_bitmap_test)
  then have "find_free_from (page_bitmap S1) 257 = Some 257"
    by (intro find_free_from_first) auto
  then have ff: "find_free_from (page_bitmap S1) (next_free_page S1) = Some 257"
    unfolding S1_def by simp
  have "length (memory_regions S1) < 1024" unfolding S1_def by simp
  from allocate_memory_ok[OF _ this ff, of 6]
  have a2: "allocate_memory 6 ?P S1 = (Inr ?q, S2)" by (simp add: S2_def S1_def)
  have h2: "mm_history [Alloc 5 ?P, Alloc 6 ?P] ?i = (S2, [?p \<mapsto> 5, ?q \<mapsto> 6])"
    by (simp add: mm_history_def a1 a2)
  have t2: "tracked S2 [?p \<mapsto> 5, ?q \<mapsto> 6]"
    using tracked_history[of "[Alloc 5 ?P, Alloc 6 ?P]" mm_boot] unfolding h2 by simp
  have l2: "[?p \<mapsto> 5, ?q \<mapsto> 6] ?p = Some 5" using ne by simp
  from free_memory_freed_iff[OF t2, of 5 ?p] l2
  have ev: "fst (free_memory 5 ?p S2) = MEMORY_FREED" by simp
  have fr256: "unat ?p div 4096 = 256" by (rule page_address_props(7)) simp_all
  have S3: "next_free_page S3 = 256"
    "memory_regions S3 = snd (unregister_memory_region ?p (memory_regions S2))"
    unfolding S3_def free_memory_freed_state[OF ev] fr256 by (simp_all add: S2_def)
  have lw: "([?p \<mapsto> 5, ?q \<mapsto> 6])(?p := None) = [?q \<mapsto> 6]"
    by (rule ext) (simp add: ne)
  have h3: "mm_history ?W ?i = track (Free 5 ?p) (mm_history [Alloc 5 ?P, Alloc 6 ?P] ?i)"
    by (simp add: mm_history_def)
  have hW: "mm_history ?W ?i = (S3, [?q \<mapsto> 6])"
    unfolding h3 h2 using l2 lw by (simp add: S3_def)
  note T = C7_bitmap_invariant[of ?W mm_boot, unfolded hW fst_conv snd_conv]
  note T1 = T[THEN conjunct1]
  note T2 = T[THEN conjunct2, THEN conjunct1, rule_format]
  note T5 = T[THEN conjunct2, THEN conjunct2, THEN conjunct2, THEN conjunct2, THEN conjunct2,
              THEN conjunct1, rule_format]
  have run: "mm_run ?W ?i = S3" using T1 by simp
  have lv: "[?q \<mapsto> 6] ?p = None" "[?q \<mapsto> 6] ?q = Some 6" using ne by simp_all
  have k: "kernel_pages = 256" by (simp add: mm_consts)
  from T2[OF lt(1)] lv(1) have b256: "\<not> bitmap_test (page_bitmap S3) 256"
    unfolding k by simp
  from T2[OF lt(2)] lv(2) have b257: "bitmap_test (page_bitmap S3) 257"
    by simp
  from T5[of 6 ?q] lv(2) have f6: "fst (free_memory 6 ?q S3) = MEMORY_FREED" by simp
  from T5[of 5 ?q] lv(2) have f5: "fst (free_memory 5 ?q S3) \<noteq> MEMORY_FREED" by simp
  from b256 have "find_free_from (page_bitmap S3) 256 = Some 256"
    by (intro find_free_from_first) auto
  then have ff3: "find_free_from (page_bitmap S3) (next_free_page S3) = Some 256"
    unfolding S3(1) .
  have "length (memory_regions S3) \<le> length (memory_regions S2)"
    unfolding S3(2) by (rule unregister_length)
  then have len3: "length (memory_regions S3) < 1024" by (simp add: S2_def)
  from allocate_memory_ok[OF _ len3 ff3, of 7]
  have a3: "fst (allocate_memory 7 ?P S3) = Inr ?p" by simp
  show ?thesis unfolding hW run snd_conv
    using lt lv b256 b257 f6 f5 a3 by simp
qed

lemma new_region_granted:
  assumes inv: "mm_inv s" and f: "256 \<le> f" "f < 4096" and cur: "cur \<noteq> 0"
    and fresh: "page_address f \<notin> base_address ` set (tl (memory_regions s))"
    and en: "memory_protection_enabled s'"
    and regs: "memory_regions s' = memory_regions s @ [page_region f cur]"
  shows "validate_memory_access s' cur (page_address f) (of_nat PAGE_SIZE) MEM_PROT_WRITE = Granted"
proof -
  let ?p = "page_address f"
  note pp = page_address_props[OF f]
  have u: "unat (?p + 4096) = unat ?p + 4096" by (rule pp(2))
  have k: "1048576 \<le> unat ?p" using pp(4) by (simp add: word_less_nat_alt)
  have r: "memory_regions s' = kernel_region # (tl (memory_regions s) @ [page_region f cur])"
  proof -
    have "memory_regions s @ [page_region f cur]
          = (kernel_region # tl (memory_regions s)) @ [page_region f cur]"
      using mm_invD(3)[OF inv] by simp
    then show ?thesis by (simp add: regs)
  qed
  have pr: "is_page_region (page_region f cur)" by (rule is_page_regionI[OF f cur])
  have b: "base_address (page_region f cur) = ?p" by (simp add: page_region_def)
  have cov: "base_address (page_region f cur) \<le> ?p
             \<and> ?p + 4096 \<le> base_address (page_region f cur) + region_size (page_region f cur)"
    using page_covers_iff[OF pr u] b by simp
  have last: "check_regions [page_region f cur] cur ?p (?p + 4096) MEM_PROT_WRITE = Granted"
    using cov by (simp add: page_region_def MEM_PROT_READ_def MEM_PROT_WRITE_def)
  have "check_regions (tl (memory_regions s) @ [page_region f cur]) cur ?p (?p + 4096) MEM_PROT_WRITE
        = check_regions [page_region f cur] cur ?p (?p + 4096) MEM_PROT_WRITE"
    by (rule check_regions_skip[OF _ u fresh]) (use mm_invD(4)[OF inv] in blast)
  with last kernel_not_cover[OF k u]
  have "check_regions (memory_regions s') cur ?p (?p + 4096) MEM_PROT_WRITE = Granted"
    unfolding r by simp
  then show ?thesis unfolding validate_page_address[OF en f] .
qed

lemma alloc_free_state:
  assumes inv: "mm_inv s" and cur: "cur \<noteq> 0" and nf: "length (memory_regions s) < 1024"
    and ff: "find_free_from (page_bitmap s) (next_free_page s) = Some f"
  shows "free_memory cur (page_address f) (snd (allocate_memory cur (of_nat PAGE_SIZE) s))
         = (MEMORY_FREED, s\<lparr>next_free_page := f\<rparr>)"
proof -
  note fr = free_frame_fresh[OF inv ff]
  note pp = page_address_props[OF fr(1,2)]
  define s1 where "s1 = s\<lparr>next_free_page := f + 1, page_bitmap := bitmap_set (page_bitmap s) f,
              memory_regions := memory_regions s @ [page_region f cur]\<rparr>"
  have al: "snd (allocate_memory cur (of_nat PAGE_SIZE) s) = s1"
    using allocate_memory_ok[OF cur nf ff] by (simp add: s1_def)
  have g: "validate_memory_access s1 cur (page_address f) (of_nat PAGE_SIZE) MEM_PROT_WRITE = Granted"
    by (rule new_region_granted[OF inv fr(1,2) cur fr(3)])
       (simp_all add: s1_def mm_invD(2)[OF inv])
  have clr: "bitmap_clear (bitmap_set (page_bitmap s) f) f = page_bitmap s"
    using find_free_from_Some[OF ff] by (intro bitmap_clear_set) simp
  have unr: "snd (unregister_memory_region (page_address f) (memory_regions s @ [page_region f cur]))
             = memory_regions s"
    by (rule unregister_last[OF fr(4)]) (simp add: page_region_def)
  have "free_memory cur (page_address f) s1 =
        (MEMORY_FREED,
         s1\<lparr>page_bitmap := bitmap_clear (page_bitmap s1) f,
            next_free_page := (if f < next_free_page s1 then f else next_free_page s1),
            memory_regions := snd (unregister_memory_region (page_address f) (memory_regions s1))\<rparr>)"
    using g cur pp(1) pp(7) fr(2) by (simp add: free_memory_def Let_def mm_consts)
  also have "\<dots> = (MEMORY_FREED, s\<lparr>next_free_page := f\<rparr>)"
    by (simp add: s1_def clr unr)
  finally show ?thesis unfolding al .
qed

section \<open>Freeing a frame and allocating again\<close>

text \<open>
  C8. In every state reached from initialisation by allocate and free calls, with a
  current user and room in the registry: allocate a page, free the pointer returned,
  allocate again, and the second allocation returns what the first did. When the first
  allocation succeeds, the free succeeds too, restores bitmap and registry, and rewinds
  the hint from one past the frame to the frame itself, which the next scan then finds
  first. (When no frame is free the first call returns \<open>NULL\<close>, freeing \<open>NULL\<close> does
  nothing, and the second call returns \<open>NULL\<close> again.)
\<close>

theorem C8_free_then_reuse:
  assumes cur: "cur \<noteq> 0"
    and room: "region_count (mm_run ops (init_memory_management s0)) < MAX_MEMORY_REGIONS"
  defines "s \<equiv> mm_run ops (init_memory_management s0)"
  defines "r1 \<equiv> allocate_memory cur (of_nat PAGE_SIZE) s"
  defines "r2 \<equiv> free_memory cur (ret_ptr (fst r1)) (snd r1)"
  defines "r3 \<equiv> allocate_memory cur (of_nat PAGE_SIZE) (snd r2)"
  shows "fst r3 = fst r1
       \<and> (\<forall>a. fst r1 = Inr a \<longrightarrow>
              fst r2 = MEMORY_FREED
            \<and> page_bitmap (snd r2) = page_bitmap s
            \<and> memory_regions (snd r2) = memory_regions s
            \<and> page_address (next_free_page (snd r2)) = a
            \<and> next_free_page (snd r2) < next_free_page (snd r1))"
proof -
  have inv: "mm_inv s" unfolding s_def by (rule mm_inv_run[OF mm_inv_init])
  from room have nf: "length (memory_regions s) < 1024"
    by (simp add: s_def region_count_def MAX_MEMORY_REGIONS_def)
  show ?thesis
  proof (cases "find_free_from (page_bitmap s) (next_free_page s)")
    case None
    have a1: "r1 = (Inl OUT_OF_MEMORY, s)"
      unfolding r1_def by (rule allocate_memory_oom[OF cur None])
    then have a2: "r2 = (NULL_POINTER_FREE, s)"
      by (simp add: r2_def ret_ptr_def free_memory_def)
    then have "r3 = r1" by (simp add: r3_def r1_def)
    with a1 show ?thesis by simp
  next
    case (Some f)
    have a1: "r1 = (Inr (page_address f),
            s\<lparr>next_free_page := f + 1, page_bitmap := bitmap_set (page_bitmap s) f,
              memory_regions := memory_regions s @ [page_region f cur]\<rparr>)"
      unfolding r1_def by (rule allocate_memory_ok[OF cur nf Some])
    have "free_memory cur (page_address f) (snd (allocate_memory cur (of_nat PAGE_SIZE) s))
         = (MEMORY_FREED, s\<lparr>next_free_page := f\<rparr>)"
      by (rule alloc_free_state[OF inv cur nf Some])
    then have a2: "r2 = (MEMORY_FREED, s\<lparr>next_free_page := f\<rparr>)"
      using a1 by (simp add: r2_def r1_def ret_ptr_def)
    from find_free_from_Some[OF Some] have "f < 4096" "\<not> bitmap_test (page_bitmap s) f" by simp_all
    then have "find_free_from (page_bitmap s) f = Some f"
      by (intro find_free_from_first) auto
    then have "find_free_from (page_bitmap (s\<lparr>next_free_page := f\<rparr>))
                 (next_free_page (s\<lparr>next_free_page := f\<rparr>)) = Some f" by simp
    from allocate_memory_ok[OF cur _ this] nf
    have a3: "fst r3 = Inr (page_address f)" by (simp add: r3_def a2)
    show ?thesis using a1 a2 a3 by simp
  qed
qed

theorem C8_witness:
  "(5 :: 32 word) \<noteq> 0
   \<and> region_count (mm_run [] (init_memory_management mm_boot)) < MAX_MEMORY_REGIONS
   \<and> fst (allocate_memory 5 (of_nat PAGE_SIZE) (mm_run [] (init_memory_management mm_boot)))
       = Inr (page_address 256)
   \<and> fst (allocate_memory 5 (of_nat PAGE_SIZE)
        (snd (free_memory 5 (page_address 256)
           (snd (allocate_memory 5 (of_nat PAGE_SIZE) (mm_run [] (init_memory_management mm_boot)))))))
       = Inr (page_address 256)"
proof -
  have c: "(5 :: 32 word) \<noteq> 0" by simp
  have r: "region_count (mm_run [] (init_memory_management mm_boot)) < MAX_MEMORY_REGIONS"
    by (simp add: mm_run_def region_count_def init_fields MAX_MEMORY_REGIONS_def)
  have m: "mm_run [] (init_memory_management mm_boot) = init_memory_management mm_boot"
    by (simp add: mm_run_def)
  have a: "fst (allocate_memory 5 (of_nat PAGE_SIZE) (mm_run [] (init_memory_management mm_boot)))
       = Inr (page_address 256)"
    unfolding m using first_alloc[OF c, of mm_boot] by simp
  from C8_free_then_reuse[OF c r] a c r show ?thesis by (simp add: ret_ptr_def)
qed

section \<open>Filling the registry\<close>

lemma low_frames_Suc: "low_frames_bitmap (Suc n) = bitmap_set (low_frames_bitmap n) n"
  by (simp add: low_frames_bitmap_def)

lemma low_frames_length [simp]: "length (low_frames_bitmap n) = 512"
  by (simp add: low_frames_bitmap_def length_fold_bitmap_set BITMAP_SIZE_def mm_consts)

lemma low_frames_test:
  assumes "n \<le> 4096" "g < 4096"
  shows "bitmap_test (low_frames_bitmap n) g \<longleftrightarrow> g < n"
proof -
  have "bitmap_test (fold (\<lambda>p b. bitmap_set b p) [0..<n] (replicate 512 0)) g
        \<longleftrightarrow> g < n \<or> bitmap_test (replicate 512 0) g"
    by (rule test_fold_set) (use assms(1) in simp)
  moreover have "\<not> bitmap_test (replicate 512 0) g"
    by (rule test_zero_bitmap) (use assms(2) in simp)
  moreover have "BITMAP_SIZE = 512" by (simp add: mm_consts)
  ultimately show ?thesis by (simp add: low_frames_bitmap_def)
qed

lemma init_state:
  "init_memory_management s0 =
     \<lparr>page_bitmap = low_frames_bitmap 256, next_free_page = 256,
      memory_regions = [kernel_region], memory_protection_enabled = True\<rparr>"
proof -
  have "kernel_pages = 256" by (simp add: mm_consts)
  then have "page_bitmap (init_memory_management s0) = low_frames_bitmap 256"
    by (simp only: init_memory_management_def mm_state.simps low_frames_bitmap_def)
  then show ?thesis using init_fields[of s0] by (cases "init_memory_management s0") simp
qed

lemma mm_run_snoc: "mm_run (ops @ [op]) s = mm_step op (mm_run ops s)"
  by (simp add: mm_run_def)

lemma mm_run_Cons: "mm_run (op # ops) s = mm_run ops (mm_step op s)"
  by (simp add: mm_run_def)

lemma allocs_state:
  assumes cur: "cur \<noteq> 0"
  shows "k \<le> 1023 \<Longrightarrow>
     mm_run (replicate k (Alloc cur (of_nat PAGE_SIZE))) (init_memory_management s0) =
     \<lparr>page_bitmap = low_frames_bitmap (256 + k), next_free_page = 256 + k,
      memory_regions = kernel_region # map (\<lambda>f. page_region f cur) [256..<256 + k],
      memory_protection_enabled = True\<rparr>"
proof (induction k)
  case 0
  then show ?case by (simp add: mm_run_def init_state)
next
  case (Suc k)
  let ?S = "\<lparr>page_bitmap = low_frames_bitmap (256 + k), next_free_page = 256 + k,
      memory_regions = kernel_region # map (\<lambda>f. page_region f cur) [256..<256 + k],
      memory_protection_enabled = True\<rparr>"
  from Suc have ih: "mm_run (replicate k (Alloc cur (of_nat PAGE_SIZE))) (init_memory_management s0) = ?S"
    and k: "k < 1023" by simp_all
  have "\<not> bitmap_test (low_frames_bitmap (256 + k)) (256 + k)"
    using k by (simp add: low_frames_test)
  then have ff: "find_free_from (page_bitmap ?S) (next_free_page ?S) = Some (256 + k)"
    using k by (intro find_free_from_first) auto
  have "length (memory_regions ?S) < 1024" using k by simp
  from this ff have "allocate_memory cur (of_nat PAGE_SIZE) ?S =
           (Inr (page_address (256 + k)),
            ?S\<lparr>next_free_page := 256 + k + 1, page_bitmap := bitmap_set (page_bitmap ?S) (256 + k),
              memory_regions := memory_regions ?S @ [page_region (256 + k) cur]\<rparr>)"
    by (rule allocate_memory_ok[OF cur])
  then have "mm_step (Alloc cur (of_nat PAGE_SIZE)) ?S =
     \<lparr>page_bitmap = low_frames_bitmap (256 + Suc k), next_free_page = 256 + Suc k,
      memory_regions = kernel_region # map (\<lambda>f. page_region f cur) [256..<256 + Suc k],
      memory_protection_enabled = True\<rparr>"
  proof -
    have s1: "Suc (256 + k) = 257 + k" by simp
    have e1: "low_frames_bitmap (257 + k) = bitmap_set (low_frames_bitmap (256 + k)) (256 + k)"
      using low_frames_Suc[of "256 + k"] unfolding s1 .
    have "[256..<Suc (256 + k)] = [256..<256 + k] @ [256 + k]"
      by (rule upt_Suc_append) simp
    then have e2: "[256..<257 + k] = [256..<256 + k] @ [256 + k]" unfolding s1 .
    assume "allocate_memory cur (of_nat PAGE_SIZE) ?S =
           (Inr (page_address (256 + k)),
            ?S\<lparr>next_free_page := 256 + k + 1, page_bitmap := bitmap_set (page_bitmap ?S) (256 + k),
              memory_regions := memory_regions ?S @ [page_region (256 + k) cur]\<rparr>)"
    then show ?thesis by (simp add: e1 e2)
  qed
  moreover have "replicate (Suc k) (Alloc cur (of_nat PAGE_SIZE))
                 = replicate k (Alloc cur (of_nat PAGE_SIZE)) @ [Alloc cur (of_nat PAGE_SIZE)]"
    by (simp add: replicate_append_same)
  ultimately show ?case by (simp only: mm_run_snoc ih)
qed

lemma failed_allocs:
  assumes cur: "cur \<noteq> 0"
  shows "length (memory_regions s) \<ge> 1024 \<Longrightarrow> next_free_page s + n \<le> 4096 \<Longrightarrow>
         (\<forall>j. next_free_page s \<le> j \<and> j < next_free_page s + n \<longrightarrow> \<not> bitmap_test (page_bitmap s) j) \<Longrightarrow>
         mm_run (replicate n (Alloc cur (of_nat PAGE_SIZE))) s = s\<lparr>next_free_page := next_free_page s + n\<rparr>"
proof (induction n arbitrary: s)
  case 0
  then show ?case by (simp add: mm_run_def)
next
  case (Suc n)
  have "find_free_from (page_bitmap s) (next_free_page s) = Some (next_free_page s)"
    using Suc.prems by (intro find_free_from_first) auto
  from allocate_memory_full[OF cur Suc.prems(1) this]
  have st: "snd (allocate_memory cur (of_nat PAGE_SIZE) s) = s\<lparr>next_free_page := next_free_page s + 1\<rparr>"
    by simp
  have "mm_run (replicate n (Alloc cur (of_nat PAGE_SIZE))) (s\<lparr>next_free_page := next_free_page s + 1\<rparr>)
        = (s\<lparr>next_free_page := next_free_page s + 1\<rparr>)
            \<lparr>next_free_page := next_free_page (s\<lparr>next_free_page := next_free_page s + 1\<rparr>) + n\<rparr>"
    by (rule Suc.IH) (use Suc.prems in auto)
  then show ?case unfolding replicate_Suc mm_run_Cons mm_step.simps st by simp
qed

lemma full_registry_state_eq:
  "full_registry_state =
     \<lparr>page_bitmap = low_frames_bitmap 1279, next_free_page = 1279,
      memory_regions = kernel_region # map (\<lambda>f. page_region f 5) [256..<1279],
      memory_protection_enabled = True\<rparr>"
proof -
  have "(5 :: 32 word) \<noteq> 0" "(1023::nat) \<le> 1023" by simp_all
  from allocs_state[OF this, of mm_boot] show ?thesis
    by (simp only: full_registry_state_def) simp
qed

lemma exhausted_hint_state_eq:
  "exhausted_hint_state = full_registry_state\<lparr>next_free_page := 4096\<rparr>"
proof -
  have c: "(5 :: 32 word) \<noteq> 0" by simp
  have l: "length (memory_regions full_registry_state) \<ge> 1024"
    by (simp add: full_registry_state_eq)
  have h: "next_free_page full_registry_state = 1279" by (simp add: full_registry_state_eq)
  have b: "page_bitmap full_registry_state = low_frames_bitmap 1279"
    by (simp add: full_registry_state_eq)
  have n: "next_free_page full_registry_state + 2817 \<le> 4096" unfolding h by simp
  have cl: "\<forall>j. next_free_page full_registry_state \<le> j \<and> j < next_free_page full_registry_state + 2817
            \<longrightarrow> \<not> bitmap_test (page_bitmap full_registry_state) j"
    unfolding h b by (simp add: low_frames_test)
  from failed_allocs[OF c l n cl] show ?thesis
    unfolding exhausted_hint_state_def h by simp
qed


section \<open>Allocation with a full registry\<close>

text \<open>
  C3, at a state the allocator reaches: after initialisation user 5 allocated 1023 pages,
  so the registry holds its 1024 regions, frames 0 to 1278 are marked and the hint is
  1279. The next \<open>allocate_memory\<close> returns \<open>NULL\<close> and leaves bitmap and registry as they
  were, frame 1279 clear again. But \<open>next_free_page\<close> stays at 1280: the rollback clears
  the bit and does not rewind the hint as \<open>free_memory\<close> does, so the next scan returns
  frame 1280 and not the frame that was rolled back.
\<close>

theorem C3_rollback_keeps_hint:
  "region_count full_registry_state = MAX_MEMORY_REGIONS
   \<and> fst (find_free_page full_registry_state) = Some 1279
   \<and> allocate_memory 5 (of_nat PAGE_SIZE) full_registry_state
       = (Inl REGION_REGISTRATION_FAILED, full_registry_state\<lparr>next_free_page := 1280\<rparr>)
   \<and> \<not> bitmap_test (page_bitmap (snd (allocate_memory 5 (of_nat PAGE_SIZE) full_registry_state))) 1279
   \<and> fst (find_free_page (snd (allocate_memory 5 (of_nat PAGE_SIZE) full_registry_state))) = Some 1280"
proof -
  have c: "(5 :: 32 word) \<noteq> 0" by simp
  have l: "length (memory_regions full_registry_state) = 1024"
    by (simp add: full_registry_state_eq)
  have h: "next_free_page full_registry_state = 1279" by (simp add: full_registry_state_eq)
  have b: "page_bitmap full_registry_state = low_frames_bitmap 1279"
    by (simp add: full_registry_state_eq)
  have t: "\<not> bitmap_test (low_frames_bitmap 1279) 1279" "\<not> bitmap_test (low_frames_bitmap 1279) 1280"
    by (simp_all add: low_frames_test)
  have f1: "find_free_from (page_bitmap full_registry_state) (next_free_page full_registry_state) = Some 1279"
    unfolding h b using t(1) by (intro find_free_from_first) auto
  have l': "length (memory_regions full_registry_state) \<ge> 1024" using l by simp
  have a: "allocate_memory 5 (of_nat PAGE_SIZE) full_registry_state
       = (Inl REGION_REGISTRATION_FAILED, full_registry_state\<lparr>next_free_page := 1280\<rparr>)"
    using allocate_memory_full[OF c l' f1] by simp
  have f2: "find_free_from (low_frames_bitmap 1279) 1280 = Some 1280"
    using t(2) by (intro find_free_from_first) auto
  show ?thesis unfolding a
    using l f1 t(1) f2 b
    by (simp add: region_count_def MAX_MEMORY_REGIONS_def find_free_page_def)
qed


section \<open>The scan for a free frame\<close>

text \<open>
  C2 (as the code has it). \<open>find_free_page\<close> scans once from the hint up to the last frame
  and does not wrap around. It returns the first clear frame at or above the hint and
  moves the hint one past it (\<open>allocate_memory\<close> then sets the bit and registers the
  page); it reports that no page is free exactly when no frame at or above the hint is
  clear, leaving the state as it was. When every frame below the hint is marked, that is
  exactly when no frame at all is clear.
\<close>

theorem C2_scan_from_hint:
  "(\<forall>f. fst (find_free_page s) = Some f \<longleftrightarrow>
          next_free_page s \<le> f \<and> f < PHYS_MEMORY_END div PAGE_SIZE
        \<and> \<not> bitmap_test (page_bitmap s) f
        \<and> (\<forall>j. next_free_page s \<le> j \<and> j < f \<longrightarrow> bitmap_test (page_bitmap s) j))
   \<and> (\<forall>f. fst (find_free_page s) = Some f \<longrightarrow> snd (find_free_page s) = s\<lparr>next_free_page := f + 1\<rparr>)
   \<and> (fst (find_free_page s) = None \<longleftrightarrow>
        (\<forall>j. next_free_page s \<le> j \<and> j < PHYS_MEMORY_END div PAGE_SIZE
             \<longrightarrow> bitmap_test (page_bitmap s) j))
   \<and> (fst (find_free_page s) = None \<longrightarrow> snd (find_free_page s) = s)
   \<and> (\<forall>f cur. cur \<noteq> 0 \<and> region_count s < MAX_MEMORY_REGIONS \<and> fst (find_free_page s) = Some f
         \<longrightarrow> allocate_memory cur (of_nat PAGE_SIZE) s =
               (Inr (page_address f),
                s\<lparr>next_free_page := f + 1, page_bitmap := bitmap_set (page_bitmap s) f,
                  memory_regions := memory_regions s @ [page_region f cur]\<rparr>))
   \<and> (\<forall>cur. cur \<noteq> 0 \<and> fst (find_free_page s) = None
         \<longrightarrow> allocate_memory cur (of_nat PAGE_SIZE) s = (Inl OUT_OF_MEMORY, s))
   \<and> ((\<forall>j < next_free_page s. bitmap_test (page_bitmap s) j) \<longrightarrow>
        (fst (find_free_page s) = None \<longleftrightarrow>
           (\<forall>j < PHYS_MEMORY_END div PAGE_SIZE. bitmap_test (page_bitmap s) j)))"
proof -
  have k: "PHYS_MEMORY_END div PAGE_SIZE = 4096" by (simp add: mm_consts)
  have some: "\<forall>f. fst (find_free_page s) = Some f \<longleftrightarrow>
          next_free_page s \<le> f \<and> f < 4096 \<and> \<not> bitmap_test (page_bitmap s) f
        \<and> (\<forall>j. next_free_page s \<le> j \<and> j < f \<longrightarrow> bitmap_test (page_bitmap s) j)"
    by (simp only: find_free_page_Some find_free_from_Some_iff) simp
  have none: "fst (find_free_page s) = None \<longleftrightarrow>
        (\<forall>j. next_free_page s \<le> j \<and> j < 4096 \<longrightarrow> bitmap_test (page_bitmap s) j)"
    by (simp only: find_free_page_None find_free_from_None_iff)
  have st1: "\<forall>f. fst (find_free_page s) = Some f \<longrightarrow> snd (find_free_page s) = s\<lparr>next_free_page := f + 1\<rparr>"
    by (simp add: find_free_page_def split: option.splits)
  have st2: "fst (find_free_page s) = None \<longrightarrow> snd (find_free_page s) = s"
    by (simp add: find_free_page_def split: option.splits)
  have al1: "\<forall>f cur. cur \<noteq> 0 \<and> region_count s < MAX_MEMORY_REGIONS \<and> fst (find_free_page s) = Some f
         \<longrightarrow> allocate_memory cur (of_nat PAGE_SIZE) s =
               (Inr (page_address f),
                s\<lparr>next_free_page := f + 1, page_bitmap := bitmap_set (page_bitmap s) f,
                  memory_regions := memory_regions s @ [page_region f cur]\<rparr>)"
    using allocate_memory_ok[of _ s]
    by (simp add: find_free_page_Some region_count_def MAX_MEMORY_REGIONS_def)
  have al2: "\<forall>cur. cur \<noteq> 0 \<and> fst (find_free_page s) = None
         \<longrightarrow> allocate_memory cur (of_nat PAGE_SIZE) s = (Inl OUT_OF_MEMORY, s)"
    using allocate_memory_oom[of _ s] by (simp add: find_free_page_None)
  have wrap: "(\<forall>j < next_free_page s. bitmap_test (page_bitmap s) j) \<longrightarrow>
        (fst (find_free_page s) = None \<longleftrightarrow> (\<forall>j < 4096. bitmap_test (page_bitmap s) j))"
    unfolding none by (metis not_le_imp_less)
  show ?thesis unfolding k using some none st1 st2 al1 al2 wrap by blast
qed

theorem C2_witness:
  "fst (find_free_page (init_memory_management mm_boot)) = Some 256
   \<and> next_free_page (snd (find_free_page (init_memory_management mm_boot))) = 257
   \<and> (5 :: 32 word) \<noteq> 0
   \<and> region_count (init_memory_management mm_boot) < MAX_MEMORY_REGIONS
   \<and> fst (allocate_memory 5 (of_nat PAGE_SIZE) (init_memory_management mm_boot)) = Inr (page_address 256)
   \<and> \<not> bitmap_test (page_bitmap (init_memory_management mm_boot)) 256
   \<and> fst (find_free_page exhausted_hint_state) = None"
proof -
  let ?i = "init_memory_management mm_boot"
  have c: "(5 :: 32 word) \<noteq> 0" by simp
  have r: "region_count ?i < MAX_MEMORY_REGIONS"
    by (simp add: region_count_def init_fields MAX_MEMORY_REGIONS_def)
  have t: "\<not> bitmap_test (page_bitmap ?i) 256" by (simp add: init_bitmap_test)
  have lo: "\<forall>j < next_free_page ?i. bitmap_test (page_bitmap ?i) j"
    by (simp add: init_fields init_bitmap_test)
  have f: "fst (find_free_page ?i) = Some 256"
    unfolding find_free_page_Some init_fields(2)
    using t by (intro find_free_from_first) auto
  have h: "next_free_page exhausted_hint_state = 4096"
    by (simp add: exhausted_hint_state_eq)
  have e: "\<forall>j. next_free_page exhausted_hint_state \<le> j \<and> j < PHYS_MEMORY_END div PAGE_SIZE
             \<longrightarrow> bitmap_test (page_bitmap exhausted_hint_state) j"
    unfolding h by (auto simp: mm_consts)
  note T1 = C2_scan_from_hint[of ?i]
  note T2 = C2_scan_from_hint[of exhausted_hint_state]
  from T1 f have "snd (find_free_page ?i) = ?i\<lparr>next_free_page := 256 + 1\<rparr>" by blast
  then have n: "next_free_page (snd (find_free_page ?i)) = 257" by simp
  from T1 f c r have "allocate_memory 5 (of_nat PAGE_SIZE) ?i =
               (Inr (page_address 256),
                ?i\<lparr>next_free_page := 256 + 1, page_bitmap := bitmap_set (page_bitmap ?i) 256,
                  memory_regions := memory_regions ?i @ [page_region 256 5]\<rparr>)" by blast
  then have a: "fst (allocate_memory 5 (of_nat PAGE_SIZE) ?i) = Inr (page_address 256)" by simp
  from T2 e have o: "fst (find_free_page exhausted_hint_state) = None" by blast
  show ?thesis using f n c r a t lo o e by blast
qed

text \<open>The claim's wraparound fails: in the state reached by 2817 more allocation attempts
  on the full registry the hint is 4096, frame 1279 is clear and below the hint, and the
  scan finds nothing, so \<open>allocate_memory\<close> reports \<open>OUT_OF_MEMORY\<close>.\<close>

theorem C2_counterexample:
  "fst (find_free_page exhausted_hint_state) = None
   \<and> allocate_memory 5 (of_nat PAGE_SIZE) exhausted_hint_state = (Inl OUT_OF_MEMORY, exhausted_hint_state)
   \<and> \<not> bitmap_test (page_bitmap exhausted_hint_state) 1279
   \<and> 1279 < next_free_page exhausted_hint_state"
proof -
  have c: "(5 :: 32 word) \<noteq> 0" by simp
  have h: "next_free_page exhausted_hint_state = 4096"
    and b: "page_bitmap exhausted_hint_state = low_frames_bitmap 1279"
    by (simp_all add: exhausted_hint_state_eq full_registry_state_eq)
  have n: "find_free_from (page_bitmap exhausted_hint_state) (next_free_page exhausted_hint_state) = None"
    unfolding h find_free_from_None_iff by auto
  have t: "\<not> bitmap_test (low_frames_bitmap 1279) 1279" by (simp add: low_frames_test)
  from allocate_memory_oom[OF c n] n t h b show ?thesis
    by (simp add: find_free_page_def)
qed

lemma check_regions_find:
  "check_regions rs cur a e acc =
     (case find (\<lambda>r. region_covers r a e) rs of
        None \<Rightarrow> Denied UNREGISTERED_REGION
      | Some r \<Rightarrow> if protection r AND acc = 0 then Denied PERMISSION_DENIED
                  else if owner r \<noteq> 0 \<and> owner r \<noteq> cur then Denied WRONG_OWNER
                  else Granted)"
  by (induction rs) (simp_all add: region_covers_def)

lemma validate_cases:
  assumes "memory_protection_enabled s"
  shows "validate_memory_access s cur a sz acc =
     (if a = 0 \<or> sz = 0 then Denied INVALID_ACCESS
      else if a + sz < a then Denied ADDRESS_OVERFLOW
      else if a < of_nat KERNEL_END \<or> a + sz > of_nat PHYS_MEMORY_END then Denied OUT_OF_BOUNDS
      else if a mod of_nat PAGE_SIZE \<noteq> 0 then Denied MISALIGNED_ACCESS
      else (case covering_region s a sz of
              None \<Rightarrow> Denied UNREGISTERED_REGION
            | Some r \<Rightarrow> if protection r AND acc = 0 then Denied PERMISSION_DENIED
                        else if owner r \<noteq> 0 \<and> owner r \<noteq> cur then Denied WRONG_OWNER
                        else Granted))"
  using assms
  by (simp only: validate_memory_access_def check_regions_find covering_region_def) simp

lemma find_unique:
  assumes "\<forall>x \<in> set xs. \<forall>y \<in> set xs. P x \<and> P y \<longrightarrow> x = y"
  shows "find P xs = Some x \<longleftrightarrow> x \<in> set xs \<and> P x"
proof
  assume "find P xs = Some x"
  then show "x \<in> set xs \<and> P x" by (auto simp: find_Some_iff)
next
  assume a: "x \<in> set xs \<and> P x"
  then have "find P xs \<noteq> None" by (auto simp: find_None_iff)
  then obtain y where y: "find P xs = Some y" by auto
  then have "y \<in> set xs \<and> P y" by (auto simp: find_Some_iff)
  with a assms have "y = x" by blast
  with y show "find P xs = Some x" by simp
qed

section \<open>The access validator\<close>

lemma one_page_state_eq:
  "one_page_state =
     \<lparr>page_bitmap = low_frames_bitmap 257, next_free_page = 257,
      memory_regions = [kernel_region, page_region 256 5], memory_protection_enabled = True\<rparr>"
proof -
  have "(5 :: 32 word) \<noteq> 0" "(1::nat) \<le> 1023" by simp_all
  from allocs_state[OF this, of mm_boot] show ?thesis
    by (simp add: one_page_state_def)
qed

lemma one_page_facts:
  "memory_protection_enabled one_page_state"
  "memory_regions one_page_state = [kernel_region, page_region 256 5]"
  "range_ok (page_address 256) (of_nat PAGE_SIZE)"
  "\<not> region_covers kernel_region (page_address 256) (page_address 256 + of_nat PAGE_SIZE)"
  "region_covers (page_region 256 5) (page_address 256) (page_address 256 + of_nat PAGE_SIZE)"
  "covering_region one_page_state (page_address 256) (of_nat PAGE_SIZE) = Some (page_region 256 5)"
proof -
  have f: "(256::nat) \<le> 256" "(256::nat) < 4096" by simp_all
  note pp = page_address_props[OF f]
  have ps: "(of_nat PAGE_SIZE :: 32 word) = 4096" by (simp add: PAGE_SIZE_def)
  show en: "memory_protection_enabled one_page_state" by (simp add: one_page_state_eq)
  show regs: "memory_regions one_page_state = [kernel_region, page_region 256 5]"
    by (simp add: one_page_state_eq)
  show "range_ok (page_address 256) (of_nat PAGE_SIZE)"
    unfolding range_ok_def ps using pp by (simp add: mm_consts not_less)
  have k: "1048576 \<le> unat (page_address 256)" using pp(4) by (simp add: word_less_nat_alt)
  show nk: "\<not> region_covers kernel_region (page_address 256) (page_address 256 + of_nat PAGE_SIZE)"
    unfolding region_covers_def ps by (rule kernel_not_cover[OF k pp(2)])
  have pr: "is_page_region (page_region 256 5)" by (rule is_page_regionI) simp_all
  have "base_address (page_region 256 5) = page_address 256" by (simp add: page_region_def)
  with page_covers_iff[OF pr pp(2)]
  show cv: "region_covers (page_region 256 5) (page_address 256) (page_address 256 + of_nat PAGE_SIZE)"
    unfolding region_covers_def ps by simp
  show "covering_region one_page_state (page_address 256) (of_nat PAGE_SIZE) = Some (page_region 256 5)"
    unfolding covering_region_def regs using nk cv by simp
qed


text \<open>
  C1 (as the code has it). With protection enabled, \<open>validate_memory_access\<close> grants an
  access exactly if the range passes the checks made before the registry is consulted
  (address non-null and size non-zero, no wrap-around in \<open>address + size\<close>, range inside
  the window from \<open>KERNEL_END\<close> to \<open>PHYS_MEMORY_END\<close>, address page-aligned) and the first
  registered region that contains the range has at least one permission bit in common
  with the request and has no owner or the current user as owner. Each failure rejects
  with its own event, in that order; a range that no region contains is rejected. When
  the first containing region grants write and is owned by someone other than the
  current user, a write access is rejected with \<open>WRONG_OWNER\<close> and \<open>free_memory\<close> frees
  nothing. When at most one region contains the range, "the first region" is "some
  region", as the claim words it.
\<close>

theorem C1_validate:
  assumes en: "memory_protection_enabled s"
  shows "(validate_memory_access s cur a sz acc = Granted \<longleftrightarrow>
            range_ok a sz
          \<and> (\<exists>r. covering_region s a sz = Some r \<and> protection r AND acc \<noteq> 0
                  \<and> (owner r = 0 \<or> owner r = cur)))
       \<and> (a = 0 \<or> sz = 0 \<longrightarrow> validate_memory_access s cur a sz acc = Denied INVALID_ACCESS)
       \<and> (a \<noteq> 0 \<and> sz \<noteq> 0 \<and> a + sz < a
            \<longrightarrow> validate_memory_access s cur a sz acc = Denied ADDRESS_OVERFLOW)
       \<and> (a \<noteq> 0 \<and> sz \<noteq> 0 \<and> \<not> a + sz < a
            \<and> (a < of_nat KERNEL_END \<or> a + sz > of_nat PHYS_MEMORY_END)
            \<longrightarrow> validate_memory_access s cur a sz acc = Denied OUT_OF_BOUNDS)
       \<and> (a \<noteq> 0 \<and> sz \<noteq> 0 \<and> \<not> a + sz < a
            \<and> of_nat KERNEL_END \<le> a \<and> a + sz \<le> of_nat PHYS_MEMORY_END
            \<and> a mod of_nat PAGE_SIZE \<noteq> 0
            \<longrightarrow> validate_memory_access s cur a sz acc = Denied MISALIGNED_ACCESS)
       \<and> (range_ok a sz \<and> covering_region s a sz = None
            \<longrightarrow> validate_memory_access s cur a sz acc = Denied UNREGISTERED_REGION)
       \<and> (\<forall>r. range_ok a sz \<and> covering_region s a sz = Some r \<and> protection r AND acc = 0
            \<longrightarrow> validate_memory_access s cur a sz acc = Denied PERMISSION_DENIED)
       \<and> (\<forall>r. range_ok a sz \<and> covering_region s a sz = Some r \<and> protection r AND acc \<noteq> 0
              \<and> owner r \<noteq> 0 \<and> owner r \<noteq> cur
            \<longrightarrow> validate_memory_access s cur a sz acc = Denied WRONG_OWNER)
       \<and> (\<forall>r. range_ok a (of_nat PAGE_SIZE) \<and> covering_region s a (of_nat PAGE_SIZE) = Some r
              \<and> protection r AND MEM_PROT_WRITE \<noteq> 0 \<and> owner r \<noteq> 0 \<and> owner r \<noteq> cur
            \<longrightarrow> validate_memory_access s cur a (of_nat PAGE_SIZE) MEM_PROT_WRITE = Denied WRONG_OWNER
              \<and> free_memory cur a s = (INVALID_FREE, s))
       \<and> ((\<forall>r \<in> set (memory_regions s). \<forall>r' \<in> set (memory_regions s).
              region_covers r a (a + sz) \<and> region_covers r' a (a + sz) \<longrightarrow> r = r')
            \<longrightarrow> (validate_memory_access s cur a sz acc = Granted \<longleftrightarrow>
                   range_ok a sz
                 \<and> (\<exists>r \<in> set (memory_regions s). region_covers r a (a + sz)
                        \<and> protection r AND acc \<noteq> 0 \<and> (owner r = 0 \<or> owner r = cur))))"
proof -
  note v = validate_cases[OF en]
  have ro: "range_ok a sz \<longleftrightarrow> \<not> (a = 0 \<or> sz = 0) \<and> \<not> a + sz < a
      \<and> \<not> (a < of_nat KERNEL_END \<or> a + sz > of_nat PHYS_MEMORY_END) \<and> \<not> a mod of_nat PAGE_SIZE \<noteq> 0"
    unfolding range_ok_def not_less not_not de_Morgan_disj by blast
  have g: "validate_memory_access s cur a sz acc = Granted \<longleftrightarrow>
            range_ok a sz
          \<and> (\<exists>r. covering_region s a sz = Some r \<and> protection r AND acc \<noteq> 0
                  \<and> (owner r = 0 \<or> owner r = cur))"
    unfolding v ro by (auto split: option.splits)
  have e1: "a = 0 \<or> sz = 0 \<longrightarrow> validate_memory_access s cur a sz acc = Denied INVALID_ACCESS"
    unfolding v by simp
  have e2: "a \<noteq> 0 \<and> sz \<noteq> 0 \<and> a + sz < a
            \<longrightarrow> validate_memory_access s cur a sz acc = Denied ADDRESS_OVERFLOW"
    unfolding v by simp
  have e3: "a \<noteq> 0 \<and> sz \<noteq> 0 \<and> \<not> a + sz < a
            \<and> (a < of_nat KERNEL_END \<or> a + sz > of_nat PHYS_MEMORY_END)
            \<longrightarrow> validate_memory_access s cur a sz acc = Denied OUT_OF_BOUNDS"
    unfolding v by simp
  have e4: "a \<noteq> 0 \<and> sz \<noteq> 0 \<and> \<not> a + sz < a
            \<and> of_nat KERNEL_END \<le> a \<and> a + sz \<le> of_nat PHYS_MEMORY_END
            \<and> a mod of_nat PAGE_SIZE \<noteq> 0
            \<longrightarrow> validate_memory_access s cur a sz acc = Denied MISALIGNED_ACCESS"
    unfolding v by (auto simp: not_less)
  have e5: "range_ok a sz \<and> covering_region s a sz = None
            \<longrightarrow> validate_memory_access s cur a sz acc = Denied UNREGISTERED_REGION"
    unfolding v ro by auto
  have e6: "\<forall>r. range_ok a sz \<and> covering_region s a sz = Some r \<and> protection r AND acc = 0
            \<longrightarrow> validate_memory_access s cur a sz acc = Denied PERMISSION_DENIED"
    unfolding v ro by auto
  have e7: "\<forall>r. range_ok a sz \<and> covering_region s a sz = Some r \<and> protection r AND acc \<noteq> 0
              \<and> owner r \<noteq> 0 \<and> owner r \<noteq> cur
            \<longrightarrow> validate_memory_access s cur a sz acc = Denied WRONG_OWNER"
    unfolding v ro by auto
  have w: "validate_memory_access s cur a (of_nat PAGE_SIZE) MEM_PROT_WRITE = Denied WRONG_OWNER"
    if "range_ok a (of_nat PAGE_SIZE)" "covering_region s a (of_nat PAGE_SIZE) = Some r"
      "protection r AND MEM_PROT_WRITE \<noteq> 0" "owner r \<noteq> 0" "owner r \<noteq> cur" for r
    using that unfolding validate_cases[OF en] range_ok_def by (auto simp: not_less)
  have e8: "\<forall>r. range_ok a (of_nat PAGE_SIZE) \<and> covering_region s a (of_nat PAGE_SIZE) = Some r
              \<and> protection r AND MEM_PROT_WRITE \<noteq> 0 \<and> owner r \<noteq> 0 \<and> owner r \<noteq> cur
            \<longrightarrow> validate_memory_access s cur a (of_nat PAGE_SIZE) MEM_PROT_WRITE = Denied WRONG_OWNER
              \<and> free_memory cur a s = (INVALID_FREE, s)"
  proof (intro allI impI)
    fix r assume h: "range_ok a (of_nat PAGE_SIZE) \<and> covering_region s a (of_nat PAGE_SIZE) = Some r
              \<and> protection r AND MEM_PROT_WRITE \<noteq> 0 \<and> owner r \<noteq> 0 \<and> owner r \<noteq> cur"
    then have d: "validate_memory_access s cur a (of_nat PAGE_SIZE) MEM_PROT_WRITE = Denied WRONG_OWNER"
      using w by blast
    from h have "a \<noteq> 0" by (simp add: range_ok_def)
    with d have "free_memory cur a s = (INVALID_FREE, s)" by (simp add: free_memory_def)
    with d show "validate_memory_access s cur a (of_nat PAGE_SIZE) MEM_PROT_WRITE = Denied WRONG_OWNER
              \<and> free_memory cur a s = (INVALID_FREE, s)" by simp
  qed
  have e9: "(\<forall>r \<in> set (memory_regions s). \<forall>r' \<in> set (memory_regions s).
              region_covers r a (a + sz) \<and> region_covers r' a (a + sz) \<longrightarrow> r = r')
            \<longrightarrow> (validate_memory_access s cur a sz acc = Granted \<longleftrightarrow>
                   range_ok a sz
                 \<and> (\<exists>r \<in> set (memory_regions s). region_covers r a (a + sz)
                        \<and> protection r AND acc \<noteq> 0 \<and> (owner r = 0 \<or> owner r = cur)))"
  proof
    assume u: "\<forall>r \<in> set (memory_regions s). \<forall>r' \<in> set (memory_regions s).
              region_covers r a (a + sz) \<and> region_covers r' a (a + sz) \<longrightarrow> r = r'"
    have "covering_region s a sz = Some r \<longleftrightarrow> r \<in> set (memory_regions s) \<and> region_covers r a (a + sz)" for r
      unfolding covering_region_def by (rule find_unique[OF u])
    then show "validate_memory_access s cur a sz acc = Granted \<longleftrightarrow>
                   range_ok a sz
                 \<and> (\<exists>r \<in> set (memory_regions s). region_covers r a (a + sz)
                        \<and> protection r AND acc \<noteq> 0 \<and> (owner r = 0 \<or> owner r = cur))"
      unfolding g by blast
  qed
  show ?thesis using g e1 e2 e3 e4 e5 e6 e7 e8 e9 by blast
qed

theorem C1_witness:
  "memory_protection_enabled one_page_state
   \<and> range_ok (page_address 256) (of_nat PAGE_SIZE)
   \<and> covering_region one_page_state (page_address 256) (of_nat PAGE_SIZE) = Some (page_region 256 5)
   \<and> validate_memory_access one_page_state 5 (page_address 256) (of_nat PAGE_SIZE) MEM_PROT_WRITE = Granted
   \<and> validate_memory_access one_page_state 6 (page_address 256) (of_nat PAGE_SIZE) MEM_PROT_WRITE
       = Denied WRONG_OWNER
   \<and> free_memory 6 (page_address 256) one_page_state = (INVALID_FREE, one_page_state)
   \<and> validate_memory_access one_page_state 5 (page_address 256) (of_nat PAGE_SIZE) MEM_PROT_EXECUTE
       = Denied PERMISSION_DENIED
   \<and> validate_memory_access one_page_state 5 0 (of_nat PAGE_SIZE) MEM_PROT_WRITE
       = Denied INVALID_ACCESS"
proof -
  have p: "protection (page_region 256 5) AND MEM_PROT_WRITE \<noteq> 0"
    "protection (page_region 256 5) AND MEM_PROT_EXECUTE = 0"
    "owner (page_region 256 5) = 5" "owner (page_region 256 5) \<noteq> 0" "owner (page_region 256 5) \<noteq> 6"
    by (simp_all add: page_region_def MEM_PROT_READ_def MEM_PROT_WRITE_def MEM_PROT_EXECUTE_def)
  note f = one_page_facts
  note c2 = conjunct2
  have g: "validate_memory_access one_page_state 5 (page_address 256) (of_nat PAGE_SIZE) MEM_PROT_WRITE = Granted"
    using C1_validate[OF f(1), of 5 "page_address 256" "of_nat PAGE_SIZE" MEM_PROT_WRITE, THEN conjunct1]
      f(3,6) p(1,3) by simp
  have w: "validate_memory_access one_page_state 6 (page_address 256) (of_nat PAGE_SIZE) MEM_PROT_WRITE
       = Denied WRONG_OWNER \<and> free_memory 6 (page_address 256) one_page_state = (INVALID_FREE, one_page_state)"
    using C1_validate[OF f(1), of 6 "page_address 256" "of_nat PAGE_SIZE" MEM_PROT_WRITE,
        THEN c2, THEN c2, THEN c2, THEN c2, THEN c2, THEN c2, THEN c2, THEN c2, THEN conjunct1,
        THEN spec, of "page_region 256 5"]
      f(3,6) p(1,4,5) by simp
  have d: "validate_memory_access one_page_state 5 (page_address 256) (of_nat PAGE_SIZE) MEM_PROT_EXECUTE
       = Denied PERMISSION_DENIED"
    using C1_validate[OF f(1), of 5 "page_address 256" "of_nat PAGE_SIZE" MEM_PROT_EXECUTE,
        THEN c2, THEN c2, THEN c2, THEN c2, THEN c2, THEN c2, THEN conjunct1,
        THEN spec, of "page_region 256 5"]
      f(3,6) p(2) by simp
  have i: "validate_memory_access one_page_state 5 0 (of_nat PAGE_SIZE) MEM_PROT_WRITE
       = Denied INVALID_ACCESS"
    using C1_validate[OF f(1), of 5 0 "of_nat PAGE_SIZE" MEM_PROT_WRITE, THEN c2, THEN conjunct1]
    by simp
  show ?thesis using f(1,3,6) g w d i by simp
qed

text \<open>The claim's subset test fails: the page is readable and writable only, and a request
  for read, write and execute together is granted.\<close>

theorem C1_counterexample:
  "memory_protection_enabled one_page_state
   \<and> memory_regions one_page_state = [kernel_region, page_region 256 5]
   \<and> validate_memory_access one_page_state 5 (page_address 256) (of_nat PAGE_SIZE) MEM_PROT_ALL = Granted
   \<and> \<not> region_covers kernel_region (page_address 256) (page_address 256 + of_nat PAGE_SIZE)
   \<and> region_covers (page_region 256 5) (page_address 256) (page_address 256 + of_nat PAGE_SIZE)
   \<and> protection (page_region 256 5) = MEM_PROT_READ OR MEM_PROT_WRITE
   \<and> MEM_PROT_ALL AND protection (page_region 256 5) \<noteq> MEM_PROT_ALL"
proof -
  have p: "protection (page_region 256 5) = MEM_PROT_READ OR MEM_PROT_WRITE"
    "owner (page_region 256 5) = 5"
    by (simp_all add: page_region_def)
  have n: "(MEM_PROT_READ OR MEM_PROT_WRITE) AND MEM_PROT_ALL \<noteq> 0"
    "MEM_PROT_ALL AND (MEM_PROT_READ OR MEM_PROT_WRITE) \<noteq> MEM_PROT_ALL"
    by (simp_all add: MEM_PROT_READ_def MEM_PROT_WRITE_def MEM_PROT_ALL_def)
  have "validate_memory_access one_page_state 5 (page_address 256) (of_nat PAGE_SIZE) MEM_PROT_ALL = Granted"
    unfolding validate_cases[OF one_page_facts(1)]
    using one_page_facts(3,6) p n by (simp add: range_ok_def not_less)
  then show ?thesis using one_page_facts p n by simp
qed

section \<open>The byte-wise scan of the second allocator\<close>














section \<open>The two scans compared\<close>





end
